theory Spec2Isabelle
  imports Main
begin

section \<open>JavaScript values\<close>

text \<open>
  A JavaScript string is a sequence of UTF-16 code units; a code unit is modelled as a
  natural number. \<open>u\<close> turns an ASCII literal into such a string.
\<close>

type_synonym ustring = "nat list"

definition u :: "string \<Rightarrow> ustring" where
  "u s = map of_char s"

text \<open>
  \<open>a || d\<close> for a string-or-nullish \<open>a\<close> and a non-empty default \<open>d\<close>: \<open>null\<close>,
  \<open>undefined\<close> and the empty string are falsy.
\<close>

definition or_str :: "ustring option \<Rightarrow> ustring \<Rightarrow> ustring" where
  "or_str a d = (case a of None \<Rightarrow> d | Some s \<Rightarrow> if s = [] then d else s)"

text \<open>The relational operator \<open><\<close> on two strings: code units, lexicographically.\<close>

fun str_lt :: "ustring \<Rightarrow> ustring \<Rightarrow> bool" where
  "str_lt [] [] = False"
| "str_lt [] (y # ys) = True"
| "str_lt (x # xs) [] = False"
| "str_lt (x # xs) (y # ys) = (x < y \<or> (x = y \<and> str_lt xs ys))"

text \<open>\<open>String(n)\<close> for an integer \<open>n\<close>, and \<open>padStart(2, "0")\<close>.\<close>

fun digits :: "nat \<Rightarrow> ustring" where
  "digits n = (if n < 10 then [48 + n] else digits (n div 10) @ [48 + n mod 10])"

declare digits.simps [simp del]

definition String_int :: "int \<Rightarrow> ustring" where
  "String_int n = (if n < 0 then 45 # digits (nat (- n)) else digits (nat n))"

definition padStart2 :: "ustring \<Rightarrow> ustring" where
  "padStart2 s = replicate (2 - length s) 48 @ s"

text \<open>
  A \<open>Map\<close> keeps its entries in the order their keys were first set: an association
  list. \<open>Map.get\<close> is \<open>map_of\<close>.
\<close>

fun map_set :: "'k \<Rightarrow> 'v \<Rightarrow> ('k \<times> 'v) list \<Rightarrow> ('k \<times> 'v) list" where
  "map_set k v [] = [(k, v)]"
| "map_set k v ((k', v') # r) =
     (if k' = k then (k, v) # r else (k', v') # map_set k v r)"

text \<open>
  \<open>Array.prototype.sort(comparefn)\<close>. The comparator returns a number, \<open>None\<close>
  standing for \<open>NaN\<close>, which the sort reads as \<open>+0\<close>. The sort is stable; for a
  consistent comparator its result is the one stable insertion sort gives. Where a
  comparator is not consistent the order is the host's choice, and insertion is one such
  choice.
\<close>

definition sortCompare :: "('a \<Rightarrow> 'a \<Rightarrow> int option) \<Rightarrow> 'a \<Rightarrow> 'a \<Rightarrow> int" where
  "sortCompare cmp x y = (case cmp x y of None \<Rightarrow> 0 | Some v \<Rightarrow> v)"

fun sort_insert :: "('a \<Rightarrow> 'a \<Rightarrow> int option) \<Rightarrow> 'a \<Rightarrow> 'a list \<Rightarrow> 'a list" where
  "sort_insert cmp x [] = [x]"
| "sort_insert cmp x (y # ys) =
     (if sortCompare cmp x y \<le> 0 then x # y # ys else y # sort_insert cmp x ys)"

fun js_sort :: "('a \<Rightarrow> 'a \<Rightarrow> int option) \<Rightarrow> 'a list \<Rightarrow> 'a list" where
  "js_sort cmp [] = []"
| "js_sort cmp (x # xs) = sort_insert cmp x (js_sort cmp xs)"

section \<open>Dates\<close>

text \<open>
  A \<open>Date\<close> holds a time value, milliseconds since the epoch, or \<open>NaN\<close> (\<open>None\<close>).
  What the host decides is a parameter of the model: how a string parses
  (\<open>Date.parse\<close>), the offset of local time from UTC at a time value, and the text
  \<open>toLocaleString(undefined, {month: "long", year: "numeric"})\<close> gives.
\<close>

record date_env =
  date_parse :: "ustring \<Rightarrow> int option"
  local_tza :: "int \<Rightarrow> int"
  month_year_label :: "int \<Rightarrow> ustring"

definition msPerDay :: int where
  "msPerDay = 86400000"

text \<open>Year and month (1 to 12) of a day number counted from 1970-01-01.\<close>

definition civil_from_days :: "int \<Rightarrow> int \<times> int" where
  "civil_from_days z0 =
     (let z = z0 + 719468;
          era = z div 146097;
          doe = z - era * 146097;
          yoe = (doe - doe div 1460 + doe div 36524 - doe div 146096) div 365;
          y = yoe + era * 400;
          doy = doe - (365 * yoe + yoe div 4 - yoe div 100);
          mp = (5 * doy + 2) div 153;
          m = (if mp < 10 then mp + 3 else mp - 9)
      in (if m \<le> 2 then y + 1 else y, m))"

definition LocalTime :: "date_env \<Rightarrow> int \<Rightarrow> int" where
  "LocalTime env t = t + local_tza env t"

definition getFullYear :: "date_env \<Rightarrow> int \<Rightarrow> int" where
  "getFullYear env t = fst (civil_from_days (LocalTime env t div msPerDay))"

text \<open>\<open>getMonth() + 1\<close>.\<close>

definition getMonth1 :: "date_env \<Rightarrow> int \<Rightarrow> int" where
  "getMonth1 env t = snd (civil_from_days (LocalTime env t div msPerDay))"

text \<open>
  \<open>new Date(value).getTime()\<close> for a string \<open>value\<close>. The empty string is a date in
  no host: \<open>new Date("")\<close> is an invalid date.
\<close>

definition date_of :: "date_env \<Rightarrow> ustring \<Rightarrow> int option" where
  "date_of env v = (if v = [] then None else date_parse env v)"

text \<open>\<open>new Date(value || 0).getTime()\<close>: the empty string gives the epoch.\<close>

definition date_or0 :: "date_env \<Rightarrow> ustring \<Rightarrow> int option" where
  "date_or0 env v = (if v = [] then Some 0 else date_parse env v)"

text \<open>
  A concrete host, for evaluating the program on examples: the UTC time zone, English
  month names followed by the year as a plain number, and a parser for the ISO format
  \<open>YYYY-MM-DDTHH:mm:ssZ\<close> in which the mail service writes \<open>receivedDateTime\<close>; no
  other string parses there.
\<close>

definition days_from_civil :: "int \<Rightarrow> int \<Rightarrow> int \<Rightarrow> int" where
  "days_from_civil y0 m d =
     (let y = (if m \<le> 2 then y0 - 1 else y0);
          era = y div 400;
          yoe = y - era * 400;
          doy = (153 * (if m > 2 then m - 3 else m + 9) + 2) div 5 + d - 1;
          doe = yoe * 365 + yoe div 4 - yoe div 100 + doy
      in era * 146097 + doe - 719468)"

definition is_digit :: "nat \<Rightarrow> bool" where
  "is_digit c = (48 \<le> c \<and> c \<le> 57)"

fun digits_val :: "ustring \<Rightarrow> int option" where
  "digits_val [] = Some 0"
| "digits_val (c # cs) =
     (if is_digit c
      then (case digits_val cs of None \<Rightarrow> None
            | Some v \<Rightarrow> Some ((int c - 48) * 10 ^ length cs + v))
      else None)"

definition daysInMonth :: "int \<Rightarrow> int \<Rightarrow> int" where
  "daysInMonth y m =
     (if m = 2 then (if y mod 4 = 0 \<and> (y mod 100 \<noteq> 0 \<or> y mod 400 = 0) then 29 else 28)
      else if m = 4 \<or> m = 6 \<or> m = 9 \<or> m = 11 then 30 else 31)"

definition slice :: "nat \<Rightarrow> nat \<Rightarrow> 'a list \<Rightarrow> 'a list" where
  "slice i j s = take (j - i) (drop i s)"

definition iso_parse :: "ustring \<Rightarrow> int option" where
  "iso_parse s =
     (if length s = 20 \<and> s ! 4 = 45 \<and> s ! 7 = 45 \<and> s ! 10 = 84 \<and> s ! 13 = 58
         \<and> s ! 16 = 58 \<and> s ! 19 = 90
      then (case (digits_val (slice 0 4 s), digits_val (slice 5 7 s), digits_val (slice 8 10 s),
                  digits_val (slice 11 13 s), digits_val (slice 14 16 s),
                  digits_val (slice 17 19 s)) of
              (Some y, Some m, Some d, Some h, Some mi, Some sec) \<Rightarrow>
                if 1 \<le> m \<and> m \<le> 12 \<and> 1 \<le> d \<and> d \<le> daysInMonth y m
                   \<and> (h \<le> 23 \<or> (h = 24 \<and> mi = 0 \<and> sec = 0)) \<and> mi \<le> 59 \<and> sec \<le> 59
                then Some (days_from_civil y m d * msPerDay + h * 3600000 + mi * 60000 + sec * 1000)
                else None
            | _ \<Rightarrow> None)
      else None)"

definition month_names :: "ustring list" where
  "month_names = map u [''January'', ''February'', ''March'', ''April'', ''May'', ''June'',
     ''July'', ''August'', ''September'', ''October'', ''November'', ''December'']"

definition en_label :: "int \<Rightarrow> ustring" where
  "en_label t =
     (case civil_from_days (t div msPerDay) of
        (y, m) \<Rightarrow> month_names ! nat (m - 1) @ u '' '' @ String_int y)"

definition utc_env :: date_env where
  "utc_env = \<lparr> date_parse = iso_parse, local_tza = (\<lambda>t. 0), month_year_label = en_label \<rparr>"

section \<open>Records\<close>

record sender =
  name :: ustring
  address :: ustring

record extracted_fields =
  candidate_name :: "ustring option"
  phone_number :: "ustring option"
  email :: "ustring option"
  location :: "ustring option"
  position_applied :: "ustring option"
  job_location :: "ustring option"
  end_client :: "ustring option"
  rate :: "ustring option"
  interview_support_by :: "ustring option"
  team_lead :: "ustring option"
  manager :: "ustring option"

text \<open>
  An item of the list the page works on. \<open>extracted\<close> is \<open>None\<close> when the item carries
  no field object: \<open>item.extracted?.f\<close> is then \<open>undefined\<close>.
\<close>

record mail =
  mail_id :: ustring
  subject :: ustring
  sender :: "sender option"
  receivedDateTime :: ustring
  bodyPreview :: ustring
  webLink :: ustring
  extracted :: "extracted_fields option"

text \<open>\<open>item.extracted?.f\<close>\<close>

definition fld :: "(extracted_fields \<Rightarrow> ustring option) \<Rightarrow> mail \<Rightarrow> ustring option" where
  "fld f item = (case extracted item of None \<Rightarrow> None | Some e \<Rightarrow> f e)"

section \<open>Company deduplication (latestPerCompany)\<close>

definition company_key :: "mail \<Rightarrow> ustring" where
  "company_key item =
     or_str (fld end_client item) (or_str (fld job_location item) (u ''Unknown Company''))"

definition item_time :: "date_env \<Rightarrow> mail \<Rightarrow> int option" where
  "item_time env item = date_or0 env (receivedDateTime item)"

text \<open>\<open>b > a\<close> on two numbers: false when either is \<open>NaN\<close>.\<close>

definition num_gt :: "int option \<Rightarrow> int option \<Rightarrow> bool" where
  "num_gt b a = (case (b, a) of (Some y, Some x) \<Rightarrow> x < y | _ \<Rightarrow> False)"

text \<open>\<open>b - a\<close> on two numbers.\<close>

definition num_sub :: "int option \<Rightarrow> int option \<Rightarrow> int option" where
  "num_sub b a = (case (b, a) of (Some y, Some x) \<Rightarrow> Some (y - x) | _ \<Rightarrow> None)"

text \<open>One turn of the loop over the group's items.\<close>

definition company_step :: "date_env \<Rightarrow> (ustring \<times> mail) list \<Rightarrow> mail \<Rightarrow> (ustring \<times> mail) list" where
  "company_step env buckets item =
     (let company = company_key item in
      case map_of buckets company of
        None \<Rightarrow> map_set company item buckets
      | Some existing \<Rightarrow>
          if num_gt (item_time env item) (item_time env existing)
          then map_set company item buckets else buckets)"

definition company_buckets :: "date_env \<Rightarrow> mail list \<Rightarrow> (ustring \<times> mail) list" where
  "company_buckets env items = foldl (company_step env) [] items"

definition by_time_desc :: "date_env \<Rightarrow> mail \<Rightarrow> mail \<Rightarrow> int option" where
  "by_time_desc env a b = num_sub (item_time env b) (item_time env a)"

definition latestPerCompany :: "date_env \<Rightarrow> mail list \<Rightarrow> mail list" where
  "latestPerCompany env items = js_sort (by_time_desc env) (map snd (company_buckets env items))"

text \<open>The survivor of one company key, over the items of that key in encounter order.\<close>

fun survivor :: "date_env \<Rightarrow> mail option \<Rightarrow> mail list \<Rightarrow> mail option" where
  "survivor env cur [] = cur"
| "survivor env None (x # xs) = survivor env (Some x) xs"
| "survivor env (Some e) (x # xs) =
     survivor env (if num_gt (item_time env x) (item_time env e) then Some x else Some e) xs"


text \<open>Two records of one candidate, for the same end client, received at the same time.\<close>

definition po_a :: mail where
  "po_a = \<lparr> mail_id = u ''a'', subject = u ''PO'', sender = None,
            receivedDateTime = u ''2024-03-05T10:00:00Z'', bodyPreview = [], webLink = [],
            extracted = Some \<lparr> candidate_name = Some (u ''Jane Doe''), phone_number = None,
              email = None, location = None, position_applied = None, job_location = None,
              end_client = Some (u ''AcmeCo''), rate = None, interview_support_by = None,
              team_lead = None, manager = None \<rparr> \<rparr>"

definition po_b :: mail where
  "po_b = po_a \<lparr> mail_id := u ''b'' \<rparr>"

text \<open>The same record with a timestamp that is not a date.\<close>

definition po_nodate :: mail where
  "po_nodate = po_a \<lparr> mail_id := u ''n'', receivedDateTime := u ''not a date'' \<rparr>"

text \<open>The same record with no timestamp.\<close>

definition po_missing :: mail where
  "po_missing = po_a \<lparr> mail_id := u ''m'', receivedDateTime := [] \<rparr>"

text \<open>The same record received in the year 0.\<close>

definition po_year0 :: mail where
  "po_year0 = po_a \<lparr> mail_id := u ''z'', receivedDateTime := u ''0000-06-15T00:00:00Z'' \<rparr>"


section \<open>Month buckets and candidate groups (grouped)\<close>

definition formatMonth :: "date_env \<Rightarrow> ustring \<Rightarrow> ustring" where
  "formatMonth env v =
     (if v = [] then u ''Unknown Month''
      else case date_of env v of
             None \<Rightarrow> u ''Unknown Month''
           | Some t \<Rightarrow> month_year_label env t)"

text \<open>The key \<open>`${y}-${m}`\<close> of a time value.\<close>

definition year_month_key :: "date_env \<Rightarrow> int \<Rightarrow> ustring" where
  "year_month_key env t =
     String_int (getFullYear env t) @ u ''-'' @ padStart2 (String_int (getMonth1 env t))"

definition monthSortKey :: "date_env \<Rightarrow> ustring \<Rightarrow> ustring" where
  "monthSortKey env v =
     (case date_of env v of
        None \<Rightarrow> u ''0000-00''
      | Some t \<Rightarrow> year_month_key env t)"

record month_bucket =
  sortKey :: ustring
  bitems :: "mail list"

text \<open>\<open>m.get(k)\<close> followed by a change of the value found, for a key that is present.\<close>

fun map_modify :: "'k \<Rightarrow> ('v \<Rightarrow> 'v) \<Rightarrow> ('k \<times> 'v) list \<Rightarrow> ('k \<times> 'v) list" where
  "map_modify k f [] = []"
| "map_modify k f ((k', v) # r) =
     (if k' = k then (k', f v) # r else (k', v) # map_modify k f r)"

definition month_step ::
  "date_env \<Rightarrow> (ustring \<times> month_bucket) list \<Rightarrow> mail \<Rightarrow> (ustring \<times> month_bucket) list" where
  "month_step env monthBuckets item =
     (let monthKey = formatMonth env (receivedDateTime item);
          sk = monthSortKey env (receivedDateTime item);
          bs = (if map_of monthBuckets monthKey = None
                then map_set monthKey \<lparr> sortKey = sk, bitems = [] \<rparr> monthBuckets
                else monthBuckets)
      in map_modify monthKey (\<lambda>b. b \<lparr> bitems := bitems b @ [item] \<rparr>) bs)"

definition month_buckets :: "date_env \<Rightarrow> mail list \<Rightarrow> (ustring \<times> month_bucket) list" where
  "month_buckets env filtered = foldl (month_step env) [] filtered"

text \<open>The comparator \<open>(a, b) => (a[1].sortKey < b[1].sortKey ? 1 : -1)\<close>.\<close>

definition by_sortKey_desc ::
  "(ustring \<times> month_bucket) \<Rightarrow> (ustring \<times> month_bucket) \<Rightarrow> int option" where
  "by_sortKey_desc a b = Some (if str_lt (sortKey (snd a)) (sortKey (snd b)) then 1 else - 1)"

definition sorted_month_buckets :: "date_env \<Rightarrow> mail list \<Rightarrow> (ustring \<times> month_bucket) list" where
  "sorted_month_buckets env filtered = js_sort by_sortKey_desc (month_buckets env filtered)"

definition candidate_key :: "mail \<Rightarrow> ustring" where
  "candidate_key item =
     or_str (fld candidate_name item) (or_str (Some (subject item)) (u ''Untitled''))"

definition candidate_step :: "(ustring \<times> mail list) list \<Rightarrow> mail \<Rightarrow> (ustring \<times> mail list) list" where
  "candidate_step candidateBuckets item =
     (let candidateKey = candidate_key item;
          bs = (if map_of candidateBuckets candidateKey = None
                then map_set candidateKey [] candidateBuckets
                else candidateBuckets)
      in map_modify candidateKey (\<lambda>xs. xs @ [item]) bs)"

record candidate_group =
  key :: ustring
  displayName :: ustring
  group_items :: "mail list"

record month_view =
  monthLabel :: ustring
  groups :: "candidate_group list"

definition grouped :: "date_env \<Rightarrow> mail list \<Rightarrow> month_view list" where
  "grouped env filtered =
     map (\<lambda>(label, bucket).
            \<lparr> monthLabel = label,
              groups = map (\<lambda>(candidateKey, groupItems).
                              \<lparr> key = candidateKey, displayName = candidateKey,
                                group_items = groupItems \<rparr>)
                           (foldl candidate_step [] (bitems bucket)) \<rparr>)
         (sorted_month_buckets env filtered)"

section \<open>Support statistics (supportCounts, supportCandidates)\<close>

definition All :: ustring where
  "All = u ''All''"

definition support_name :: "mail \<Rightarrow> ustring" where
  "support_name item = or_str (fld interview_support_by item) (u ''Unknown'')"

definition support_candidate :: "mail \<Rightarrow> ustring" where
  "support_candidate item = or_str (fld candidate_name item) (u ''Unknown'')"

text \<open>
  The head of both loops: true when one of the two \<open>continue\<close> statements is reached.
  Only a record whose date is valid meets them.
\<close>

definition filtered_out :: "date_env \<Rightarrow> ustring \<Rightarrow> ustring \<Rightarrow> mail \<Rightarrow> bool" where
  "filtered_out env supportYear supportMonth item =
     (case date_or0 env (receivedDateTime item) of
        None \<Rightarrow> False
      | Some t \<Rightarrow>
          (let year = String_int (getFullYear env t);
               month = padStart2 (String_int (getMonth1 env t))
           in if supportYear \<noteq> All \<and> year \<noteq> supportYear then True
              else if supportMonth \<noteq> All \<and> month \<noteq> supportMonth then True
              else False))"

definition count_step ::
  "date_env \<Rightarrow> ustring \<Rightarrow> ustring \<Rightarrow> (ustring \<times> nat) list \<Rightarrow> mail \<Rightarrow> (ustring \<times> nat) list" where
  "count_step env supportYear supportMonth counts item =
     (if filtered_out env supportYear supportMonth item then counts
      else map_set (support_name item)
             ((case map_of counts (support_name item) of None \<Rightarrow> 0 | Some c \<Rightarrow> c) + 1) counts)"

definition by_count_desc :: "(ustring \<times> nat) \<Rightarrow> (ustring \<times> nat) \<Rightarrow> int option" where
  "by_count_desc a b = Some (int (snd b) - int (snd a))"

text \<open>The rows \<open>{name, count}\<close>, as pairs.\<close>

definition supportCounts :: "date_env \<Rightarrow> ustring \<Rightarrow> ustring \<Rightarrow> mail list \<Rightarrow> (ustring \<times> nat) list" where
  "supportCounts env supportYear supportMonth filtered =
     js_sort by_count_desc (foldl (count_step env supportYear supportMonth) [] filtered)"

text \<open>A \<open>Set\<close> keeps its members in the order they were first added.\<close>

definition set_add :: "'a \<Rightarrow> 'a list \<Rightarrow> 'a list" where
  "set_add x xs = (if x \<in> set xs then xs else xs @ [x])"

definition candidates_step ::
  "date_env \<Rightarrow> ustring \<Rightarrow> ustring \<Rightarrow> (ustring \<times> ustring list) list \<Rightarrow> mail
     \<Rightarrow> (ustring \<times> ustring list) list" where
  "candidates_step env supportYear supportMonth buckets item =
     (if filtered_out env supportYear supportMonth item then buckets
      else (let expert = support_name item;
                candidate = support_candidate item;
                bs = (if map_of buckets expert = None then map_set expert [] buckets else buckets)
            in map_modify expert (set_add candidate) bs))"

definition supportCandidates ::
  "date_env \<Rightarrow> ustring \<Rightarrow> ustring \<Rightarrow> mail list \<Rightarrow> (ustring \<times> ustring list) list" where
  "supportCandidates env supportYear supportMonth filtered =
     foldl (candidates_step env supportYear supportMonth) [] filtered"

text \<open>The count shown for a name (none when the name has no row), and its candidates.\<close>

definition count_of :: "(ustring \<times> nat) list \<Rightarrow> ustring \<Rightarrow> nat" where
  "count_of rows n = (case map_of rows n of None \<Rightarrow> 0 | Some c \<Rightarrow> c)"

definition candidates_of :: "(ustring \<times> ustring list) list \<Rightarrow> ustring \<Rightarrow> ustring list" where
  "candidates_of buckets n = (case map_of buckets n of None \<Rightarrow> [] | Some cs \<Rightarrow> cs)"

section \<open>Seeding the year and month filters (latestPeriod and its effect)\<close>

record period =
  year :: ustring
  month :: ustring

definition latest_step :: "date_env \<Rightarrow> int option \<Rightarrow> mail \<Rightarrow> int option" where
  "latest_step env latest item =
     (case date_or0 env (receivedDateTime item) of
        None \<Rightarrow> latest
      | Some d \<Rightarrow> (case latest of None \<Rightarrow> Some d
                              | Some l \<Rightarrow> if l < d then Some d else Some l))"

definition latestPeriod :: "date_env \<Rightarrow> mail list \<Rightarrow> period" where
  "latestPeriod env filtered =
     (case foldl (latest_step env) None filtered of
        None \<Rightarrow> \<lparr> year = All, month = All \<rparr>
      | Some latest \<Rightarrow>
          \<lparr> year = String_int (getFullYear env latest),
            month = padStart2 (String_int (getMonth1 env latest)) \<rparr>)"

text \<open>The two pieces of state the effect reads and sets.\<close>

record support_filter =
  supportYear :: ustring
  supportMonth :: ustring

text \<open>
  The effect with dependencies \<open>[latestPeriod, supportYear, supportMonth]\<close>: it runs
  after every render in which one of them has changed, so after every change of a filter.
  Both tests read the state of that render.
\<close>

definition seed_effect :: "period \<Rightarrow> support_filter \<Rightarrow> support_filter" where
  "seed_effect latest st =
     \<lparr> supportYear =
         (if supportYear st = All \<and> year latest \<noteq> All then year latest else supportYear st),
       supportMonth =
         (if supportMonth st = All \<and> month latest \<noteq> All then month latest
          else supportMonth st) \<rparr>"

text \<open>
  The user's choices: the button \<open>All Years\<close> or a year (\<open>setSupportYear\<close>), the month
  list (\<open>setSupportMonth\<close>). Each is followed by a render and the effect.
\<close>

datatype user_choice = ChooseYear ustring | ChooseMonth ustring

fun apply_choice :: "user_choice \<Rightarrow> support_filter \<Rightarrow> support_filter" where
  "apply_choice (ChooseYear y) st = st \<lparr> supportYear := y \<rparr>"
| "apply_choice (ChooseMonth m) st = st \<lparr> supportMonth := m \<rparr>"

definition after_choice :: "period \<Rightarrow> user_choice \<Rightarrow> support_filter \<Rightarrow> support_filter" where
  "after_choice latest c st = seed_effect latest (apply_choice c st)"

section \<open>Regular expressions\<close>

text \<open>
  The patterns of the program are sequences of items: a class of code units with a
  repetition (least and greatest number of times, greedy or lazy), the two ends of the one
  capturing group, a positive lookahead over alternatives, and the anchors \<open>^\<close> and
  \<open>$\<close>. \<open>rmatch\<close> is the backtracking matcher at one position: it returns the rest of
  the input after the match, and the inputs that were left when the group was opened and
  closed. The flag says whether the position is the start of the input.
\<close>

text \<open>
  \<open>Rep p lo hi g\<close> is the class \<open>p\<close> repeated at least \<open>lo\<close> and at most \<open>hi\<close> times
  (\<open>None\<close>: without bound), greedy when \<open>g\<close> holds and lazy otherwise; \<open>GOpen\<close> and
  \<open>GClose\<close> are the brackets of the group; \<open>Ahead alts\<close> is \<^verbatim>\<open>(?=a|b|...)\<close>;
  \<open>Bol\<close> and \<open>Eol\<close> are \<^verbatim>\<open>^\<close> and \<^verbatim>\<open>$\<close> (no flag \<open>m\<close>).
\<close>

datatype item =
    Rep "nat \<Rightarrow> bool" nat "nat option" bool
  | GOpen
  | GClose
  | Ahead "item list list"
  | Bol
  | Eol

definition dec :: "nat option \<Rightarrow> nat option" where
  "dec hi = map_option (\<lambda>h. h - 1) hi"

function (sequential) rmatch :: "item list \<Rightarrow> bool \<Rightarrow> ustring \<Rightarrow> (ustring \<times> ustring list) option" where
  "rmatch [] bol s = Some (s, [])"
| "rmatch (Rep p lo hi g # r) bol s =
     (if hi = Some 0 then (if lo = 0 then rmatch r bol s else None)
      else if 0 < lo then
        (case s of [] \<Rightarrow> None
         | c # cs \<Rightarrow> if p c then rmatch (Rep p (lo - 1) (dec hi) g # r) False cs else None)
      else if g then
        (case (case s of [] \<Rightarrow> None
               | c # cs \<Rightarrow> if p c then rmatch (Rep p 0 (dec hi) g # r) False cs else None) of
           Some m \<Rightarrow> Some m
         | None \<Rightarrow> rmatch r bol s)
      else
        (case rmatch r bol s of
           Some m \<Rightarrow> Some m
         | None \<Rightarrow>
             (case s of [] \<Rightarrow> None
              | c # cs \<Rightarrow> if p c then rmatch (Rep p 0 (dec hi) g # r) False cs else None)))"
| "rmatch (GOpen # r) bol s =
     (case rmatch r bol s of None \<Rightarrow> None | Some (rest, marks) \<Rightarrow> Some (rest, s # marks))"
| "rmatch (GClose # r) bol s =
     (case rmatch r bol s of None \<Rightarrow> None | Some (rest, marks) \<Rightarrow> Some (rest, s # marks))"
| "rmatch (Ahead alts # r) bol s =
     (if list_ex (\<lambda>alt. rmatch alt bol s \<noteq> None) alts then rmatch r bol s else None)"
| "rmatch (Bol # r) bol s = (if bol then rmatch r bol s else None)"
| "rmatch (Eol # r) bol s = (if s = [] then rmatch r bol s else None)"
  by pat_completeness auto
termination
  apply (relation "measures [\<lambda>(re, bol, s). length s, \<lambda>(re, bol, s). size_list size re]")
   apply auto
  subgoal for alts r x
    using size_list_estimation'[of x alts "size_list size x" "size_list size"] by simp
  done


text \<open>\<open>String.prototype.match\<close> with a pattern without the flag \<open>g\<close>: the leftmost match.\<close>

fun rsearch :: "item list \<Rightarrow> bool \<Rightarrow> ustring \<Rightarrow> (ustring \<times> ustring list) option" where
  "rsearch re bol [] = rmatch re bol []"
| "rsearch re bol (c # cs) =
     (case rmatch re bol (c # cs) of
        Some m \<Rightarrow> Some m
      | None \<Rightarrow> rsearch re False cs)"

text \<open>
  \<open>String.prototype.replace\<close> with a pattern with the flag \<open>g\<close>: every match, left to
  right, is replaced; after an empty match the next code unit is copied.
\<close>

fun replace_all :: "item list \<Rightarrow> ustring \<Rightarrow> bool \<Rightarrow> ustring \<Rightarrow> ustring" where
  "replace_all re rep bol s =
     (case rmatch re bol s of
        Some (rest, marks) \<Rightarrow>
          if length rest < length s then rep @ replace_all re rep False rest
          else (case s of [] \<Rightarrow> rep | c # cs \<Rightarrow> rep @ c # replace_all re rep False cs)
      | None \<Rightarrow> (case s of [] \<Rightarrow> [] | c # cs \<Rightarrow> c # replace_all re rep False cs))"

declare replace_all.simps [simp del]

text \<open>The text of the first group of a match of a pattern with one group.\<close>

definition group1 :: "ustring list \<Rightarrow> ustring option" where
  "group1 marks = (case marks of [a, b] \<Rightarrow> Some (take (length a - length b) a) | _ \<Rightarrow> None)"

subsection \<open>Character classes\<close>

text \<open>\<open>\s\<close>, which is also what \<open>trim\<close> removes: white space and line terminators.\<close>

definition is_ws :: "nat \<Rightarrow> bool" where
  "is_ws c = (c = 9 \<or> c = 10 \<or> c = 11 \<or> c = 12 \<or> c = 13 \<or> c = 32 \<or> c = 160 \<or> c = 5760
     \<or> (8192 \<le> c \<and> c \<le> 8202) \<or> c = 8232 \<or> c = 8233 \<or> c = 8239 \<or> c = 8287 \<or> c = 12288
     \<or> c = 65279)"

definition is_alpha :: "nat \<Rightarrow> bool" where
  "is_alpha c = ((65 \<le> c \<and> c \<le> 90) \<or> (97 \<le> c \<and> c \<le> 122))"

definition is_num :: "nat \<Rightarrow> bool" where
  "is_num c = (48 \<le> c \<and> c \<le> 57)"

text \<open>\<open>.\<close>: any code unit but a line terminator.\<close>

definition is_dot :: "nat \<Rightarrow> bool" where
  "is_dot c = (c \<noteq> 10 \<and> c \<noteq> 13 \<and> c \<noteq> 8232 \<and> c \<noteq> 8233)"

definition lower :: "nat \<Rightarrow> nat" where
  "lower c = (if 65 \<le> c \<and> c \<le> 90 then c + 32 else c)"

text \<open>
  A character of a pattern with the flag \<open>i\<close>: an ASCII letter matches its two cases,
  and no code unit outside ASCII is folded onto an ASCII one.
\<close>

definition eq_i :: "nat \<Rightarrow> nat \<Rightarrow> bool" where
  "eq_i a c = (lower c = lower a)"

text \<open>One code unit of a class; a literal of a pattern with the flag \<open>i\<close>.\<close>

definition one :: "(nat \<Rightarrow> bool) \<Rightarrow> item" where
  "one p = Rep p 1 (Some 1) True"

definition lit_i :: "string \<Rightarrow> item list" where
  "lit_i s = map (\<lambda>a. one (eq_i (of_char a))) s"

text \<open>\<open>\s*\<close>, \<open>\s+\<close>, \<open>[A-Za-z\s]+?\<close> and \<open>.+?\<close>.\<close>

definition ws_star :: item where
  "ws_star = Rep is_ws 0 None True"

definition ws_plus :: item where
  "ws_plus = Rep is_ws 1 None True"

definition words_lazy :: item where
  "words_lazy = Rep (\<lambda>c. is_alpha c \<or> is_ws c) 1 None False"

definition any_lazy :: item where
  "any_lazy = Rep is_dot 1 None False"

section \<open>The mail reader (normalizeText, extractPoDetails, htmlToText)\<close>

definition trim :: "ustring \<Rightarrow> ustring" where
  "trim s = rev (dropWhile is_ws (rev (dropWhile is_ws s)))"

datatype js_value = Null | Undefined | Str ustring

text \<open>\<open>String(v)\<close> and \<open>!v\<close>.\<close>

fun String_of :: "js_value \<Rightarrow> ustring" where
  "String_of Null = u ''null''"
| "String_of Undefined = u ''undefined''"
| "String_of (Str s) = s"

fun falsy :: "js_value \<Rightarrow> bool" where
  "falsy Null = True"
| "falsy Undefined = True"
| "falsy (Str s) = (s = [])"

text \<open>
  \<^verbatim>\<open>String(text).replace(/\u00a0/g, " ").replace(/\s+/g, " ").trim()\<close>
\<close>

definition normalizeText :: "js_value \<Rightarrow> ustring" where
  "normalizeText text =
     trim (replace_all [ws_plus] (u '' '') True
             (replace_all [one (\<lambda>c. c = 160)] (u '' '') True (String_of text)))"

datatype js_error = TypeError

text \<open>
  \<open>find\<close>: \<open>match ? match[1].trim() : null\<close>. Reading \<open>trim\<close> of a group that took no
  part in the match would raise.
\<close>

definition find_re :: "item list \<Rightarrow> ustring \<Rightarrow> js_error + ustring option" where
  "find_re pattern src =
     (case rsearch pattern True src of
        None \<Rightarrow> Inr None
      | Some (rest, marks) \<Rightarrow>
          (case group1 marks of None \<Rightarrow> Inl TypeError | Some g \<Rightarrow> Inr (Some (trim g))))"

text \<open>
  The patterns of \<open>extractPoDetails\<close>, each under the regular expression it stands
  for. The classes are written with the code units: 43 is \<open>+\<close>, 40 and 41 the round
  brackets, 45 \<open>-\<close>, 46 the full stop, 95 \<open>_\<close>, 37 \<open>%\<close>, 64 \<open>@\<close>, 36 the dollar
  sign, 44 the comma, 47 the slash, 107 and 75 \<open>k\<close> and \<open>K\<close>, 60 and 62 the angle
  brackets, 160 the non-breaking space.
\<close>

text \<open>\<^verbatim>\<open>/Interview Support\s*Support by\s*(.+?)(?=\s+Marketing Application|\s+Thanks|$)/i\<close>\<close>

definition re_interview :: "item list" where
  "re_interview = lit_i ''Interview Support'' @ [ws_star] @ lit_i ''Support by'' @
     [ws_star, GOpen, any_lazy, GClose,
      Ahead [ws_plus # lit_i ''Marketing Application'', ws_plus # lit_i ''Thanks'', [Eol]]]"

text \<open>\<^verbatim>\<open>/Name of Candidate:\s*([A-Za-z\s]+?)\s+(?=SST|Location|PO)/i\<close>\<close>

definition re_candidate_name :: "item list" where
  "re_candidate_name = lit_i ''Name of Candidate:'' @
     [ws_star, GOpen, words_lazy, GClose, ws_plus,
      Ahead [lit_i ''SST'', lit_i ''Location'', lit_i ''PO'']]"

text \<open>\<^verbatim>\<open>/Personal Phone Number\s*([\+\d\(\)\-\.\s]+)/i\<close>\<close>

definition re_phone_number :: "item list" where
  "re_phone_number = lit_i ''Personal Phone Number'' @
     [ws_star, GOpen,
      Rep (\<lambda>c. c = 43 \<or> is_num c \<or> c = 40 \<or> c = 41 \<or> c = 45 \<or> c = 46 \<or> is_ws c) 1 None True,
      GClose]"

text \<open>\<^verbatim>\<open>/Email ID\s*([A-Za-z0-9._%+-]+@[A-Za-z0-9.-]+\.[A-Za-z]{2,})/i\<close>\<close>

definition re_email :: "item list" where
  "re_email = lit_i ''Email ID'' @
     [ws_star, GOpen,
      Rep (\<lambda>c. is_alpha c \<or> is_num c \<or> c = 46 \<or> c = 95 \<or> c = 37 \<or> c = 43 \<or> c = 45) 1 None True,
      one (\<lambda>c. c = 64),
      Rep (\<lambda>c. is_alpha c \<or> is_num c \<or> c = 46 \<or> c = 45) 1 None True,
      one (\<lambda>c. c = 46),
      Rep is_alpha 2 None True,
      GClose]"

text \<open>\<^verbatim>\<open>/Location\s*([A-Z]{2,3})/i\<close>\<close>

definition re_location :: "item list" where
  "re_location = lit_i ''Location'' @ [ws_star, GOpen, Rep is_alpha 2 (Some 3) True, GClose]"

text \<open>\<^verbatim>\<open>/Position that Applied:\s*(.+?)(?=\s+Job Location)/i\<close>\<close>

definition re_position_applied :: "item list" where
  "re_position_applied = lit_i ''Position that Applied:'' @
     [ws_star, GOpen, any_lazy, GClose, Ahead [ws_plus # lit_i ''Job Location'']]"

text \<open>\<^verbatim>\<open>/Job Location:\s*(.+?)(?=\s+Implementation\/End Client)/i\<close>\<close>

definition re_job_location :: "item list" where
  "re_job_location = lit_i ''Job Location:'' @
     [ws_star, GOpen, any_lazy, GClose, Ahead [ws_plus # lit_i ''Implementation/End Client'']]"

text \<open>\<^verbatim>\<open>/Implementation\/End Client\s*(.+?)(?=\s+Vendor Details|\s+Rate:)/i\<close>\<close>

definition re_end_client :: "item list" where
  "re_end_client = lit_i ''Implementation/End Client'' @
     [ws_star, GOpen, any_lazy, GClose,
      Ahead [ws_plus # lit_i ''Vendor Details'', ws_plus # lit_i ''Rate:'']]"

text \<open>\<^verbatim>\<open>/Rate:\s*\$?([0-9,\.kK\/\sA-Za-z]+)/i\<close>\<close>

definition re_rate :: "item list" where
  "re_rate = lit_i ''Rate:'' @
     [ws_star, Rep (\<lambda>c. c = 36) 0 (Some 1) True, GOpen,
      Rep (\<lambda>c. is_num c \<or> c = 44 \<or> c = 46 \<or> c = 107 \<or> c = 75 \<or> c = 47 \<or> is_ws c \<or> is_alpha c)
        1 None True,
      GClose]"

text \<open>\<^verbatim>\<open>/^([A-Za-z\s]+?)(?=\s+Team Lead)/i\<close>\<close>

definition re_interview_support_by :: "item list" where
  "re_interview_support_by =
     [Bol, GOpen, words_lazy, GClose, Ahead [ws_plus # lit_i ''Team Lead'']]"

text \<open>\<^verbatim>\<open>/Team Lead\s*([A-Za-z\s]+?)(?=\s+Manager)/i\<close>\<close>

definition re_team_lead :: "item list" where
  "re_team_lead = lit_i ''Team Lead'' @
     [ws_star, GOpen, words_lazy, GClose, Ahead [ws_plus # lit_i ''Manager'']]"

text \<open>\<^verbatim>\<open>/Manager\s*([A-Za-z\s]+?)(?=\s+Marketing|$)/i\<close>\<close>

definition re_manager :: "item list" where
  "re_manager = lit_i ''Manager'' @
     [ws_star, GOpen, words_lazy, GClose, Ahead [ws_plus # lit_i ''Marketing'', [Eol]]]"

text \<open>The text isolated for the three fields of the interview support section.\<close>

definition interviewSection :: "ustring \<Rightarrow> ustring option" where
  "interviewSection text =
     (case rsearch re_interview True text of
        None \<Rightarrow> None
      | Some (rest, marks) \<Rightarrow> group1 marks)"

text \<open>The object literal: the calls of \<open>find\<close> in their order, the first that raises ends it.\<close>

definition then_e :: "js_error + 'a \<Rightarrow> ('a \<Rightarrow> js_error + 'b) \<Rightarrow> js_error + 'b" where
  "then_e m f = (case m of Inl e \<Rightarrow> Inl e | Inr v \<Rightarrow> f v)"

definition extractPoDetails :: "js_value \<Rightarrow> js_error + extracted_fields" where
  "extractPoDetails inputText =
     (let text = normalizeText inputText;
          section = or_str (interviewSection text) []
      in then_e (find_re re_candidate_name text) (\<lambda>f1.
         then_e (find_re re_phone_number text) (\<lambda>f2.
         then_e (find_re re_email text) (\<lambda>f3.
         then_e (find_re re_location text) (\<lambda>f4.
         then_e (find_re re_position_applied text) (\<lambda>f5.
         then_e (find_re re_job_location text) (\<lambda>f6.
         then_e (find_re re_end_client text) (\<lambda>f7.
         then_e (find_re re_rate text) (\<lambda>f8.
         then_e (find_re re_interview_support_by section) (\<lambda>f9.
         then_e (find_re re_team_lead section) (\<lambda>f10.
         then_e (find_re re_manager section) (\<lambda>f11.
           Inr \<lparr> candidate_name = f1, phone_number = f2, email = f3, location = f4,
                 position_applied = f5, job_location = f6, end_client = f7, rate = f8,
                 interview_support_by = f9, team_lead = f10, manager = f11 \<rparr>))))))))))))"

text \<open>\<^verbatim>\<open>/<script[\s\S]*?<\/script>/gi\<close>\<close>

definition re_script :: "item list" where
  "re_script = lit_i ''<script'' @ [Rep (\<lambda>c. True) 0 None False] @ lit_i ''</script>''"

text \<open>\<^verbatim>\<open>/<style[\s\S]*?<\/style>/gi\<close>\<close>

definition re_style :: "item list" where
  "re_style = lit_i ''<style'' @ [Rep (\<lambda>c. True) 0 None False] @ lit_i ''</style>''"

text \<open>\<^verbatim>\<open>/<\/?[^>]+>/g\<close>\<close>

definition re_tag :: "item list" where
  "re_tag = [one (\<lambda>c. c = 60), Rep (\<lambda>c. c = 47) 0 (Some 1) True,
             Rep (\<lambda>c. c \<noteq> 62) 1 None True, one (\<lambda>c. c = 62)]"

text \<open>\<^verbatim>\<open>/&nbsp;/gi\<close>\<close>

definition re_nbsp_entity :: "item list" where
  "re_nbsp_entity = lit_i ''&nbsp;''"

text \<open>The four replacements that make \<open>stripped\<close>.\<close>

definition strip_html :: "ustring \<Rightarrow> ustring" where
  "strip_html s =
     replace_all re_nbsp_entity (u '' '') True
       (replace_all re_tag (u '' '') True
          (replace_all re_style (u '' '') True
             (replace_all re_script (u '' '') True s)))"

text \<open>
  What the normalizing half of \<open>htmlToText\<close> gives: the empty string it returns for a
  missing body, and otherwise the value of \<open>text\<close> that it hands to the extractor.
\<close>

definition html_text :: "js_value \<Rightarrow> ustring" where
  "html_text htmlContent =
     (if falsy htmlContent then [] else normalizeText (Str (strip_html (String_of htmlContent))))"

text \<open>\<open>htmlToText\<close> returns the empty string or the extracted fields.\<close>

datatype html_result = Text ustring | Fields extracted_fields

definition htmlToText :: "js_value \<Rightarrow> js_error + html_result" where
  "htmlToText htmlContent =
     (if falsy htmlContent then Inr (Text [])
      else then_e (extractPoDetails (Str (html_text htmlContent))) (\<lambda>e. Inr (Fields e)))"

subsection \<open>Notions for the properties of the extractor\<close>

text \<open>A field of the result: absent, or a string that \<open>trim\<close> leaves as it is.\<close>

definition trimmed_or_absent :: "ustring option \<Rightarrow> bool" where
  "trimmed_or_absent v = (case v of None \<Rightarrow> True | Some s \<Rightarrow> trim s = s)"

text \<open>The number of group ends in a pattern.\<close>

fun ngroups :: "item list \<Rightarrow> nat" where
  "ngroups [] = 0"
| "ngroups (GOpen # r) = Suc (ngroups r)"
| "ngroups (GClose # r) = Suc (ngroups r)"
| "ngroups (x # r) = ngroups r"

text \<open>The span of the interview support section in the letter.\<close>

definition span_text :: ustring where
  "span_text = u ''Interview Support Support by Alice Team Lead Bob Manager Carol Marketing Application''"

text \<open>The pattern matches at no position of the prefix \<open>p\<close> of the text \<open>p @ rest\<close>.\<close>

fun no_match_in :: "item list \<Rightarrow> bool \<Rightarrow> ustring \<Rightarrow> ustring \<Rightarrow> bool" where
  "no_match_in re bol [] rest = True"
| "no_match_in re bol (c # cs) rest =
     (rmatch re bol (c # cs @ rest) = None \<and> no_match_in re False cs rest)"

text \<open>Two bodies that hold the span: after another \<open>Manager\<close> label, and after another section.\<close>

definition mail_with_earlier_manager :: js_value where
  "mail_with_earlier_manager = Str (u ''Hiring Manager Dave wrote. Interview Support Support by Alice Team Lead Bob Manager Carol Marketing Application form'')"

definition mail_with_two_sections :: js_value where
  "mail_with_two_sections = Str (u ''Interview Support Support by Zed Thanks Interview Support Support by Alice Team Lead Bob Manager Carol Marketing Application form'')"

subsection \<open>Notions for the properties of the normalizer\<close>

text \<open>
  A pattern whose matches are not empty and do not begin with the closing bracket.
\<close>

definition proper :: "item list \<Rightarrow> bool" where
  "proper re = (\<forall>b s rest m. rmatch re b s = Some (rest, m) \<longrightarrow>
                  (\<exists>c pre. s = c # pre @ rest \<and> c \<noteq> 62))"

text \<open>The text begins with the literal, letters in either case.\<close>

fun starts_i :: "string \<Rightarrow> ustring \<Rightarrow> bool" where
  "starts_i [] s = True"
| "starts_i (a # as) [] = False"
| "starts_i (a # as) (c # cs) = (eq_i (of_char a) c \<and> starts_i as cs)"

text \<open>No suffix of the text has the property.\<close>

fun nowhere :: "(ustring \<Rightarrow> bool) \<Rightarrow> ustring \<Rightarrow> bool" where
  "nowhere P [] = True"
| "nowhere P (c # cs) = (\<not> P (c # cs) \<and> nowhere P cs)"

text \<open>
  A tag begins here (an opening bracket, a code unit that is not the closing bracket, and
  a closing bracket further on); the entity of the non-breaking space begins here.
\<close>

definition tag_at :: "ustring \<Rightarrow> bool" where
  "tag_at s = (case s of a # b # r \<Rightarrow> a = 60 \<and> b \<noteq> 62 \<and> 62 \<in> set r | _ \<Rightarrow> False)"

definition ent_at :: "ustring \<Rightarrow> bool" where
  "ent_at s = (s \<noteq> [] \<and> starts_i ''&nbsp;'' s)"

text \<open>
  White space is normal in a text when every white space code unit is a space and is
  followed by a code unit that is not white space, or by nothing.
\<close>

fun ws_normal :: "ustring \<Rightarrow> bool" where
  "ws_normal [] = True"
| "ws_normal (c # cs) = ((is_ws c \<longrightarrow> c = 32 \<and> (cs = [] \<or> \<not> is_ws (hd cs))) \<and> ws_normal cs)"

section \<open>Properties of company deduplication\<close>

lemma map_of_map_set: "map_of (map_set k v bs) k' = (if k' = k then Some v else map_of bs k')"
  by (induction bs) auto

lemma fst_map_set: "fst ` set (map_set k v bs) = insert k (fst ` set bs)"
  by (induction k v bs rule: map_set.induct) (simp_all add: insert_commute)

lemma distinct_map_set: "distinct (map fst bs) \<Longrightarrow> distinct (map fst (map_set k v bs))"
  by (induction k v bs rule: map_set.induct) (auto simp: fst_map_set)

lemma set_sort_insert: "set (sort_insert cmp x ys) = insert x (set ys)"
  by (induction ys) auto

lemma set_js_sort: "set (js_sort cmp xs) = set xs"
  by (induction xs) (auto simp: set_sort_insert)

lemma length_sort_insert: "length (sort_insert cmp x ys) = Suc (length ys)"
  by (induction ys) auto

lemma length_js_sort: "length (js_sort cmp xs) = length xs"
  by (induction xs) (auto simp: length_sort_insert)

lemma company_step_lookup:
  "map_of (company_step env bs x) k =
     (if company_key x = k then survivor env (map_of bs k) [x] else map_of bs k)"
  by (auto simp: company_step_def Let_def map_of_map_set split: option.splits)

lemma survivor_append: "survivor env cur (xs @ ys) = survivor env (survivor env cur xs) ys"
  by (induction env cur xs rule: survivor.induct) auto

lemma foldl_company_lookup:
  "map_of (foldl (company_step env) bs items) k =
     survivor env (map_of bs k) (filter (\<lambda>x. company_key x = k) items)"
proof (induction items arbitrary: bs)
  case Nil
  then show ?case by simp
next
  case (Cons x items)
  show ?case
  proof (cases "company_key x = k")
    case True
    then show ?thesis
      using Cons[of "company_step env bs x"] 
      by (cases "map_of bs k") (simp_all add: company_step_lookup)
  next
    case False
    then show ?thesis using Cons[of "company_step env bs x"] by (simp add: company_step_lookup)
  qed
qed

lemma company_buckets_lookup:
  "map_of (company_buckets env items) k = survivor env None (filter (\<lambda>x. company_key x = k) items)"
  by (simp add: company_buckets_def foldl_company_lookup)

lemma company_step_distinct:
  "distinct (map fst bs) \<Longrightarrow> distinct (map fst (company_step env bs x))"
  by (auto simp: company_step_def Let_def distinct_map_set split: option.splits)

lemma foldl_company_distinct:
  "distinct (map fst bs) \<Longrightarrow> distinct (map fst (foldl (company_step env) bs items))"
  by (induction items arbitrary: bs) (auto simp: company_step_distinct)

lemma company_buckets_distinct: "distinct (map fst (company_buckets env items))"
  by (simp add: company_buckets_def foldl_company_distinct)

lemma survivor_cases:
  "survivor env cur xs = Some r \<Longrightarrow> cur = Some r \<or> r \<in> set xs"
  by (induction env cur xs rule: survivor.induct) (auto split: if_splits)

lemma survivor_None: "survivor env cur xs = None \<longleftrightarrow> cur = None \<and> xs = []"
  by (induction env cur xs rule: survivor.induct) auto

lemma in_latestPerCompany:
  "r \<in> set (latestPerCompany env items) \<longleftrightarrow>
     survivor env None (filter (\<lambda>x. company_key x = company_key r) items) = Some r"
proof
  assume "r \<in> set (latestPerCompany env items)"
  then obtain k where kr: "(k, r) \<in> set (company_buckets env items)"
    by (auto simp: latestPerCompany_def set_js_sort)
  then have m: "map_of (company_buckets env items) k = Some r"
    using company_buckets_distinct by simp
  then have s: "survivor env None (filter (\<lambda>x. company_key x = k) items) = Some r"
    by (simp add: company_buckets_lookup)
  from survivor_cases[OF s] have "company_key r = k" by auto
  with s show "survivor env None (filter (\<lambda>x. company_key x = company_key r) items) = Some r"
    by simp
next
  assume "survivor env None (filter (\<lambda>x. company_key x = company_key r) items) = Some r"
  then have "map_of (company_buckets env items) (company_key r) = Some r"
    by (simp add: company_buckets_lookup)
  then have "(company_key r, r) \<in> set (company_buckets env items)"
    by (rule map_of_SomeD)
  then show "r \<in> set (latestPerCompany env items)"
    by (force simp: latestPerCompany_def set_js_sort)
qed


lemma survivor_dominates:
  "survivor env (Some e) xs = Some f \<Longrightarrow>
     (item_time env e = None \<longrightarrow> f = e) \<and>
     (\<forall>te. item_time env e = Some te \<longrightarrow> (\<exists>tf. item_time env f = Some tf \<and> te \<le> tf)) \<and>
     (\<forall>x\<in>set xs. \<not> num_gt (item_time env x) (item_time env f))"
proof (induction xs arbitrary: e)
  case Nil
  then show ?case by simp
next
  case (Cons x xs)
  show ?case
  proof (cases "num_gt (item_time env x) (item_time env e)")
    case True
    with Cons.prems have s: "survivor env (Some x) xs = Some f" by simp
    from True obtain tx te where t: "item_time env x = Some tx" "item_time env e = Some te" "te < tx"
      by (auto simp: num_gt_def split: option.splits)
    from Cons.IH[OF s] t show ?thesis
      by (auto simp: num_gt_def split: option.splits)
  next
    case False
    with Cons.prems have s: "survivor env (Some e) xs = Some f" by simp
    from Cons.IH[OF s] False show ?thesis
      by (auto simp: num_gt_def split: option.splits)
  qed
qed

lemma survivor_blocked:
  "\<not> num_gt (item_time env y) (item_time env e) \<Longrightarrow> e \<noteq> y \<Longrightarrow> distinct xs \<Longrightarrow>
     survivor env (Some e) xs \<noteq> Some y"
proof (induction xs arbitrary: e)
  case Nil
  then show ?case by simp
next
  case (Cons x xs)
  show ?case
  proof (cases "x = y")
    case True
    with Cons.prems have "survivor env (Some e) (x # xs) = survivor env (Some e) xs" by simp
    moreover have "y \<notin> set xs" using Cons.prems True by simp
    ultimately show ?thesis using survivor_cases[of env "Some e" xs y] Cons.prems by auto
  next
    case False
    show ?thesis
    proof (cases "num_gt (item_time env x) (item_time env e)")
      case True
      then have "\<not> num_gt (item_time env y) (item_time env x)"
        using Cons.prems(1) by (auto simp: num_gt_def split: option.splits)
      with Cons.IH[of x] False Cons.prems True show ?thesis by simp
    next
      case F2: False
      with Cons.IH[of e] Cons.prems show ?thesis by simp
    qed
  qed
qed

lemma survivor_Some_ex: "xs \<noteq> [] \<or> cur \<noteq> None \<Longrightarrow> \<exists>f. survivor env cur xs = Some f"
  using survivor_None[of env cur xs] by (cases "survivor env cur xs") auto

text \<open>
  Claim C5, as the code has it. Among the records of one group that share a company key,
  a record that comes after another with the same received timestamp is never the one kept:
  the replacement test is the strict \<open>b > a\<close>, so among equal timestamps the record
  met first stays (first-write-wins), in whatever order the two are met.
\<close>

theorem later_equal_timestamp_not_kept:
  assumes ij: "i < j" and j: "j < length items" and d: "distinct items"
    and ck: "company_key (items ! i) = company_key (items ! j)"
    and tm: "item_time env (items ! i) = item_time env (items ! j)"
  shows "items ! j \<notin> set (latestPerCompany env items)"
proof
  let ?y = "items ! j" and ?x = "items ! i"
  let ?P = "\<lambda>r. company_key r = company_key ?y"
  let ?A = "filter ?P (take j items)" and ?B = "filter ?P (drop (Suc j) items)"
  assume "?y \<in> set (latestPerCompany env items)"
  then have s: "survivor env None (filter ?P items) = Some ?y"
    by (simp add: in_latestPerCompany)
  have split: "items = take j items @ ?y # drop (Suc j) items"
    using j by (simp add: id_take_nth_drop)
  have df: "distinct (take j items @ ?y # drop (Suc j) items)" using d split by simp
  have F: "filter ?P items = ?A @ ?y # ?B"
    using arg_cong[OF split, of "filter ?P"] by simp
  have xA: "?x \<in> set ?A"
    using ij j ck by (auto simp: in_set_conv_nth intro!: exI[of _ i])
  then have "?A \<noteq> []" by (metis empty_iff empty_set)
  then obtain e where e: "survivor env None ?A = Some e"
    using survivor_Some_ex[of ?A None env] by blast
  have eA: "e \<in> set ?A" using survivor_cases[OF e] by simp
  have yA: "?y \<notin> set ?A" using df by auto
  have ey: "e \<noteq> ?y" using eA yA by auto
  obtain a as where A: "?A = a # as" using xA by (cases ?A) auto
  have e2: "survivor env (Some a) as = Some e" using e A by simp
  have "\<not> num_gt (item_time env ?x) (item_time env e)"
  proof (cases "?x = a")
    case True
    with survivor_dominates[OF e2] show ?thesis
      by (auto simp: num_gt_def split: option.splits)
  next
    case False
    with xA A have "?x \<in> set as" by simp
    with survivor_dominates[OF e2] show ?thesis by blast
  qed
  then have blk: "\<not> num_gt (item_time env ?y) (item_time env e)" using tm by simp
  have dB: "distinct (?y # ?B)" using df by auto
  have "survivor env (Some e) (?y # ?B) \<noteq> Some ?y"
    by (rule survivor_blocked[OF blk ey dB])
  moreover have "survivor env None (filter ?P items) = survivor env (Some e) (?y # ?B)"
    using F e by (simp add: survivor_append)
  ultimately show False using s by simp
qed

text \<open>The theorem at the group \<open>[po_a, po_b]\<close>.\<close>

theorem later_equal_timestamp_not_kept_witness:
  "(0::nat) < 1 \<and> 1 < length [po_a, po_b] \<and> distinct [po_a, po_b]
   \<and> company_key ([po_a, po_b] ! 0) = company_key ([po_a, po_b] ! 1)
   \<and> item_time utc_env ([po_a, po_b] ! 0) = item_time utc_env ([po_a, po_b] ! 1)
   \<and> [po_a, po_b] ! 1 \<notin> set (latestPerCompany utc_env [po_a, po_b])"
proof -
  have d: "distinct [po_a, po_b]" by (simp add: po_a_def po_b_def u_def)
  have c: "company_key ([po_a, po_b] ! 0) = company_key ([po_a, po_b] ! 1)"
    by (simp add: po_b_def company_key_def fld_def)
  have t: "item_time utc_env ([po_a, po_b] ! 0) = item_time utc_env ([po_a, po_b] ! 1)"
    by (simp add: po_b_def item_time_def)
  show ?thesis
    using later_equal_timestamp_not_kept[of 0 1 "[po_a, po_b]" utc_env] d c t by simp
qed

text \<open>
  Claim C5 as stated (the later record wins) fails: of two records with the same company
  key and the same timestamp, the view keeps the first.
\<close>

theorem last_write_wins_counterexample:
  "company_key po_a = company_key po_b
   \<and> item_time utc_env po_a = item_time utc_env po_b
   \<and> item_time utc_env po_b = Some 1709632800000
   \<and> po_a \<noteq> po_b
   \<and> latestPerCompany utc_env [po_a, po_b] = [po_a]"
  by code_simp





lemma distinct_map_sort_insert:
  "distinct (map f (sort_insert cmp x ys)) \<longleftrightarrow> f x \<notin> f ` set ys \<and> distinct (map f ys)"
  by (induction ys) (auto simp: set_sort_insert)

lemma distinct_map_js_sort: "distinct (map f (js_sort cmp xs)) \<longleftrightarrow> distinct (map f xs)"
  by (induction xs) (auto simp: distinct_map_sort_insert set_js_sort)









text \<open>
  A direct call on a list that mixes a timestamp that does not parse with a real one: the
  time value of the first record is \<open>NaN\<close>, \<open>b > a\<close> is false against it, and the record
  stays. The page calls \<open>latestPerCompany\<close> on the records of one candidate in one month,
  and such a list is never one of them (\<open>group_uniform\<close> below).
\<close>

lemma latestPerCompany_mixed_list:
  "company_key po_nodate = company_key po_a
   \<and> item_time utc_env po_nodate = None
   \<and> item_time utc_env po_a = Some 1709632800000
   \<and> latestPerCompany utc_env [po_nodate, po_a] = [po_nodate]"
  by code_simp

section \<open>Properties of the support statistics\<close>

lemma map_of_map_modify:
  "map_of (map_modify k f bs) k' = (if k' = k then map_option f (map_of bs k) else map_of bs k')"
  by (induction k f bs rule: map_modify.induct) auto

lemma fst_map_modify: "map fst (map_modify k f bs) = map fst bs"
  by (induction k f bs rule: map_modify.induct) auto

lemma map_of_js_sort:
  "distinct (map fst xs) \<Longrightarrow> map_of (js_sort cmp xs) = map_of xs"
proof -
  assume d: "distinct (map fst xs)"
  then have "distinct (map fst (js_sort cmp xs))" by (simp add: distinct_map_js_sort)
  with d show ?thesis by (simp add: map_of_inject_set set_js_sort)
qed

lemma count_step_distinct:
  "distinct (map fst cs) \<Longrightarrow> distinct (map fst (count_step env sy sm cs x))"
  by (simp add: count_step_def distinct_map_set)

lemma foldl_count_distinct:
  "distinct (map fst cs) \<Longrightarrow> distinct (map fst (foldl (count_step env sy sm) cs xs))"
  by (induction xs arbitrary: cs) (simp_all add: count_step_distinct)

lemma count_of_count_step:
  "count_of (count_step env sy sm cs x) n =
     count_of cs n + (if \<not> filtered_out env sy sm x \<and> support_name x = n then 1 else 0)"
  by (simp add: count_step_def count_of_def map_of_map_set)

lemma count_of_foldl:
  "count_of (foldl (count_step env sy sm) cs xs) n =
     count_of cs n + length (filter (\<lambda>x. \<not> filtered_out env sy sm x \<and> support_name x = n) xs)"
  by (induction xs arbitrary: cs) (simp_all add: count_of_count_step)

lemma count_of_supportCounts:
  "count_of (supportCounts env sy sm xs) n =
     length (filter (\<lambda>x. \<not> filtered_out env sy sm x \<and> support_name x = n) xs)"
proof -
  have "distinct (map fst (foldl (count_step env sy sm) [] xs))"
    by (rule foldl_count_distinct) simp
  then have "count_of (supportCounts env sy sm xs) n = count_of (foldl (count_step env sy sm) [] xs) n"
    by (simp add: supportCounts_def count_of_def map_of_js_sort)
  moreover have "count_of [] n = 0" by (simp add: count_of_def)
  ultimately show ?thesis by (simp add: count_of_foldl)
qed

lemma candidates_of_step:
  "set (candidates_of (candidates_step env sy sm bs x) n) =
     set (candidates_of bs n) \<union>
     (if \<not> filtered_out env sy sm x \<and> support_name x = n then {support_candidate x} else {})"
  by (auto simp: candidates_step_def candidates_of_def Let_def map_of_map_modify map_of_map_set
      set_add_def split: option.splits if_splits)

lemma candidates_of_foldl:
  "set (candidates_of (foldl (candidates_step env sy sm) bs xs) n) =
     set (candidates_of bs n) \<union>
     support_candidate ` {x \<in> set xs. \<not> filtered_out env sy sm x \<and> support_name x = n}"
  by (induction xs arbitrary: bs) (auto simp: candidates_of_step)

lemma candidates_of_supportCandidates:
  "set (candidates_of (supportCandidates env sy sm xs) n) =
     support_candidate ` {x \<in> set xs. \<not> filtered_out env sy sm x \<and> support_name x = n}"
proof -
  have "candidates_of [] n = []" by (simp add: candidates_of_def)
  then show ?thesis by (simp add: supportCandidates_def candidates_of_foldl)
qed

lemma unparseable_not_filtered_out:
  "receivedDateTime r \<noteq> [] \<Longrightarrow> date_parse env (receivedDateTime r) = None \<Longrightarrow>
     \<not> filtered_out env sy sm r"
  by (simp add: filtered_out_def date_or0_def)

text \<open>
  Claim C6, as the code has it. A record whose \<open>receivedDateTime\<close> is not empty and
  does not parse is never skipped, whatever the year and month filters are: wherever it
  stands in the list, it adds one to the count of its support person, and its candidate is
  among that person's candidates.
\<close>

theorem unparseable_record_counted:
  assumes "receivedDateTime r \<noteq> []" and "date_parse env (receivedDateTime r) = None"
  shows "\<not> filtered_out env sy sm r
    \<and> count_of (supportCounts env sy sm (xs @ r # ys)) (support_name r) =
        count_of (supportCounts env sy sm (xs @ ys)) (support_name r) + 1
    \<and> support_candidate r \<in>
        set (candidates_of (supportCandidates env sy sm (xs @ r # ys)) (support_name r))"
  using unparseable_not_filtered_out[OF assms, of sy sm]
  by (simp add: count_of_supportCounts candidates_of_supportCandidates)

text \<open>The theorem at the record \<open>po_nodate\<close>, under the filters 2024 and 03.\<close>

theorem unparseable_record_counted_witness:
  "receivedDateTime po_nodate \<noteq> [] \<and> date_parse utc_env (receivedDateTime po_nodate) = None
   \<and> \<not> filtered_out utc_env (u ''2024'') (u ''03'') po_nodate
   \<and> count_of (supportCounts utc_env (u ''2024'') (u ''03'') ([po_a] @ po_nodate # [])) (support_name po_nodate) =
        count_of (supportCounts utc_env (u ''2024'') (u ''03'') ([po_a] @ [])) (support_name po_nodate) + 1
   \<and> support_candidate po_nodate \<in>
        set (candidates_of (supportCandidates utc_env (u ''2024'') (u ''03'') ([po_a] @ po_nodate # []))
               (support_name po_nodate))"
proof -
  have a: "receivedDateTime po_nodate \<noteq> []" by code_simp
  have b: "date_parse utc_env (receivedDateTime po_nodate) = None" by code_simp
  show ?thesis
    using unparseable_record_counted[OF a b, of "u ''2024''" "u ''03''" "[po_a]" "[]"] a b
    by simp
qed

text \<open>
  Claim C6 as stated fails for a record whose \<open>receivedDateTime\<close> is the empty string:
  the string does not parse, but \<open>new Date(item.receivedDateTime || 0)\<close> is the epoch,
  a valid date of 1970, and the year filter 2024 skips the record.
\<close>

theorem missing_timestamp_filtered_counterexample:
  "date_parse utc_env (receivedDateTime po_missing) = None
   \<and> date_of utc_env (receivedDateTime po_missing) = None
   \<and> filtered_out utc_env (u ''2024'') All po_missing
   \<and> supportCounts utc_env (u ''2024'') All [po_missing] = []
   \<and> supportCandidates utc_env (u ''2024'') All [po_missing] = []"
  by code_simp


section \<open>Properties of the filter seeding\<close>

lemma reseed_after_all_years:
  "year latest \<noteq> All \<Longrightarrow> supportYear (after_choice latest (ChooseYear All) st) = year latest"
  by (simp add: after_choice_def seed_effect_def)

text \<open>
  Claim C9 at a list with one dated record: the filters stand at 2024 and 03, the user
  chooses \<open>All Years\<close> (or \<open>All Months\<close>), and the effect that follows the render sets
  the filter back to the latest period.
\<close>

theorem all_years_choice_overridden:
  "latestPeriod utc_env [po_a] = \<lparr> year = u ''2024'', month = u ''03'' \<rparr>
   \<and> supportYear (apply_choice (ChooseYear All) \<lparr> supportYear = u ''2024'', supportMonth = u ''03'' \<rparr>) = All
   \<and> after_choice (latestPeriod utc_env [po_a]) (ChooseYear All)
        \<lparr> supportYear = u ''2024'', supportMonth = u ''03'' \<rparr>
      = \<lparr> supportYear = u ''2024'', supportMonth = u ''03'' \<rparr>
   \<and> after_choice (latestPeriod utc_env [po_a]) (ChooseMonth All)
        \<lparr> supportYear = u ''2024'', supportMonth = u ''03'' \<rparr>
      = \<lparr> supportYear = u ''2024'', supportMonth = u ''03'' \<rparr>"
  by code_simp

section \<open>Properties of the month buckets\<close>

lemma str_lt_irrefl: "\<not> str_lt a a"
  by (induction a) auto

lemma str_lt_trans: "str_lt a b \<Longrightarrow> str_lt b c \<Longrightarrow> str_lt a c"
proof (induction a b arbitrary: c rule: str_lt.induct)
  case 1
  then show ?case by simp
next
  case (2 y ys)
  then show ?case by (cases c) auto
next
  case (3 x xs)
  then show ?case by simp
next
  case (4 x xs y ys)
  then show ?case by (cases c) auto
qed

lemma str_lt_total: "str_lt a b \<or> a = b \<or> str_lt b a"
  by (induction a b rule: str_lt.induct) auto

lemma not_str_lt_trans:
  "\<not> str_lt a b \<Longrightarrow> \<not> str_lt b c \<Longrightarrow> \<not> str_lt a c"
  using str_lt_total[of a b] str_lt_total[of b c] str_lt_trans by blast

lemma sorted_wrt_sort_insert:
  assumes tr: "\<And>x y z. R x y \<Longrightarrow> R y z \<Longrightarrow> R x z"
    and cmp: "\<And>x y. sortCompare cmp x y \<le> 0 \<longleftrightarrow> R x y"
    and tot: "\<And>x y. R x y \<or> R y x"
  shows "sorted_wrt R ys \<Longrightarrow> sorted_wrt R (sort_insert cmp x ys)"
proof (induction ys)
  case Nil
  then show ?case by simp
next
  case (Cons y ys)
  show ?case
  proof (cases "R x y")
    case True
    then have "\<forall>z\<in>set ys. R x z" using Cons.prems tr by auto
    with True Cons.prems show ?thesis by (simp add: cmp)
  next
    case False
    then have "R y x" using tot by blast
    with False Cons show ?thesis by (auto simp: cmp set_sort_insert)
  qed
qed

lemma sorted_wrt_js_sort:
  assumes tr: "\<And>x y z. R x y \<Longrightarrow> R y z \<Longrightarrow> R x z"
    and cmp: "\<And>x y. sortCompare cmp x y \<le> 0 \<longleftrightarrow> R x y"
    and tot: "\<And>x y. R x y \<or> R y x"
  shows "sorted_wrt R (js_sort cmp xs)"
proof (induction xs)
  case Nil
  then show ?case by simp
next
  case (Cons x xs)
  then show ?case using sorted_wrt_sort_insert[of R cmp "js_sort cmp xs" x, OF tr cmp tot] by simp
qed

lemma sorted_month_buckets_sorted:
  "sorted_wrt (\<lambda>a b. \<not> str_lt (sortKey (snd a)) (sortKey (snd b))) (sorted_month_buckets env xs)"
  unfolding sorted_month_buckets_def
proof (rule sorted_wrt_js_sort)
  fix x y z :: "ustring \<times> month_bucket"
  show "\<not> str_lt (sortKey (snd x)) (sortKey (snd y)) \<Longrightarrow> \<not> str_lt (sortKey (snd y)) (sortKey (snd z))
     \<Longrightarrow> \<not> str_lt (sortKey (snd x)) (sortKey (snd z))"
    by (rule not_str_lt_trans)
  show "sortCompare by_sortKey_desc x y \<le> 0 \<longleftrightarrow> \<not> str_lt (sortKey (snd x)) (sortKey (snd y))"
    by (simp add: sortCompare_def by_sortKey_desc_def)
  show "\<not> str_lt (sortKey (snd x)) (sortKey (snd y)) \<or> \<not> str_lt (sortKey (snd y)) (sortKey (snd x))"
    using str_lt_trans str_lt_irrefl by blast
qed

lemma digits_head: "0 < n \<Longrightarrow> digits n \<noteq> [] \<and> 49 \<le> hd (digits n)"
proof (induction n rule: digits.induct)
  case (1 n)
  show ?case
  proof (cases "n < 10")
    case True
    then show ?thesis using "1.prems" by (simp add: digits.simps[of n])
  next
    case False
    then have "0 < n div 10" by simp
    with "1.IH" False have "digits (n div 10) \<noteq> [] \<and> 49 \<le> hd (digits (n div 10))" by simp
    then show ?thesis using False by (simp add: digits.simps[of n])
  qed
qed

lemma unknown_key_lt:
  assumes "1 \<le> getFullYear env t"
  shows "str_lt (u ''0000-00'') (year_month_key env t)"
proof -
  have "0 < nat (getFullYear env t)" using assms by simp
  from digits_head[OF this] obtain c cs where d: "digits (nat (getFullYear env t)) = c # cs" "49 \<le> c"
    by (cases "digits (nat (getFullYear env t))") auto
  then show ?thesis using assms by (simp add: year_month_key_def String_int_def u_def)
qed

lemma unknown_after_dated:
  assumes i: "i < length (sorted_month_buckets env xs)" and j: "j < length (sorted_month_buckets env xs)"
    and ki: "sortKey (snd (sorted_month_buckets env xs ! i)) = u ''0000-00''"
    and kj: "sortKey (snd (sorted_month_buckets env xs ! j)) = year_month_key env t"
    and y: "1 \<le> getFullYear env t"
  shows "j < i"
proof (rule ccontr)
  assume "\<not> j < i"
  moreover have "i \<noteq> j" using ki kj unknown_key_lt[OF y] str_lt_irrefl by auto
  ultimately have "i < j" by simp
  from sorted_wrt_nth_less[OF sorted_month_buckets_sorted this j]
  show False using ki kj unknown_key_lt[OF y] by simp
qed

lemma unparseable_month:
  "v = [] \<or> date_parse env v = None \<Longrightarrow>
     formatMonth env v = u ''Unknown Month'' \<and> monthSortKey env v = u ''0000-00''"
  by (auto simp: formatMonth_def monthSortKey_def date_of_def)

lemma month_step_lookup:
  "map_of (month_step env bs x) l =
     (if l = formatMonth env (receivedDateTime x)
      then Some (case map_of bs l of
                   None \<Rightarrow> \<lparr> sortKey = monthSortKey env (receivedDateTime x), bitems = [x] \<rparr>
                 | Some b \<Rightarrow> b \<lparr> bitems := bitems b @ [x] \<rparr>)
      else map_of bs l)"
  by (auto simp: month_step_def Let_def map_of_map_modify map_of_map_set split: option.splits)

lemma month_step_distinct:
  "distinct (map fst bs) \<Longrightarrow> distinct (map fst (month_step env bs x))"
  by (simp add: month_step_def Let_def fst_map_modify distinct_map_set)

lemma foldl_month_distinct:
  "distinct (map fst bs) \<Longrightarrow> distinct (map fst (foldl (month_step env) bs xs))"
  by (induction xs arbitrary: bs) (simp_all add: month_step_distinct)

lemma month_buckets_distinct: "distinct (map fst (month_buckets env xs))"
  by (simp add: month_buckets_def foldl_month_distinct)

lemma month_buckets_snoc: "month_buckets env (xs @ [x]) = month_step env (month_buckets env xs) x"
  by (simp add: month_buckets_def)

lemma month_buckets_holds:
  "r \<in> set xs \<Longrightarrow>
     \<exists>b. map_of (month_buckets env xs) (formatMonth env (receivedDateTime r)) = Some b
          \<and> r \<in> set (bitems b)"
proof (induction xs rule: rev_induct)
  case Nil
  then show ?case by simp
next
  case (snoc x xs)
  show ?case
  proof (cases "r \<in> set xs")
    case True
    from snoc.IH[OF this] obtain b where
      "map_of (month_buckets env xs) (formatMonth env (receivedDateTime r)) = Some b" "r \<in> set (bitems b)"
      by blast
    then show ?thesis by (auto simp: month_buckets_snoc month_step_lookup)
  next
    case False
    with snoc.prems have "r = x" by simp
    then show ?thesis by (simp add: month_buckets_snoc month_step_lookup split: option.splits)
  qed
qed

lemma month_buckets_keys:
  "map_of (month_buckets env xs) l = Some b \<Longrightarrow>
     \<exists>r\<in>set xs. l = formatMonth env (receivedDateTime r)
        \<and> sortKey b = monthSortKey env (receivedDateTime r)"
proof (induction xs arbitrary: b rule: rev_induct)
  case Nil
  then show ?case by (simp add: month_buckets_def)
next
  case (snoc x xs)
  show ?case
  proof (cases "map_of (month_buckets env xs) l")
    case None
    with snoc.prems have "l = formatMonth env (receivedDateTime x)"
      "sortKey b = monthSortKey env (receivedDateTime x)"
      by (auto simp: month_buckets_snoc month_step_lookup split: if_splits)
    then show ?thesis by auto
  next
    case (Some b')
    with snoc.prems have "sortKey b = sortKey b'"
      by (auto simp: month_buckets_snoc month_step_lookup split: if_splits)
    with snoc.IH[OF Some] show ?thesis by auto
  qed
qed

lemma set_sorted_month_buckets:
  "(l, b) \<in> set (sorted_month_buckets env xs) \<longleftrightarrow> map_of (month_buckets env xs) l = Some b"
  using month_buckets_distinct[of env xs]
  by (auto simp: sorted_month_buckets_def set_js_sort)

lemma grouped_labels: "map monthLabel (grouped env xs) = map fst (sorted_month_buckets env xs)"
  by (simp add: grouped_def case_prod_beta)

text \<open>
  Claim C3, as the code has it. A timestamp that is missing or does not parse gets the
  label \<open>Unknown Month\<close> and the sort key \<open>0000-00\<close>; every record lies in the bucket
  of its label, and every bucket's label and sort key are those of one of its records; the
  buckets are emitted in the order of their sort keys, descending as strings; so a bucket
  with the key \<open>0000-00\<close> stands after every bucket whose key is that of a date in a
  year from 1 on.
\<close>

theorem unknown_month_sorts_after_dated_months:
  "(\<forall>v. v = [] \<or> date_parse env v = None \<longrightarrow>
        formatMonth env v = u ''Unknown Month'' \<and> monthSortKey env v = u ''0000-00'')
   \<and> (\<forall>r\<in>set xs. \<exists>b. (formatMonth env (receivedDateTime r), b) \<in> set (sorted_month_buckets env xs)
        \<and> r \<in> set (bitems b))
   \<and> (\<forall>p\<in>set (sorted_month_buckets env xs). \<exists>r\<in>set xs.
        fst p = formatMonth env (receivedDateTime r)
        \<and> sortKey (snd p) = monthSortKey env (receivedDateTime r))
   \<and> map monthLabel (grouped env xs) = map fst (sorted_month_buckets env xs)
   \<and> sorted_wrt (\<lambda>a b. \<not> str_lt (sortKey (snd a)) (sortKey (snd b))) (sorted_month_buckets env xs)
   \<and> (\<forall>i j t. i < length (sorted_month_buckets env xs) \<and> j < length (sorted_month_buckets env xs)
        \<and> sortKey (snd (sorted_month_buckets env xs ! i)) = u ''0000-00''
        \<and> sortKey (snd (sorted_month_buckets env xs ! j)) = year_month_key env t
        \<and> 1 \<le> getFullYear env t \<longrightarrow> j < i)"
proof (intro conjI)
  show "\<forall>v. v = [] \<or> date_parse env v = None \<longrightarrow>
        formatMonth env v = u ''Unknown Month'' \<and> monthSortKey env v = u ''0000-00''"
    using unparseable_month by blast
  show "\<forall>r\<in>set xs. \<exists>b. (formatMonth env (receivedDateTime r), b) \<in> set (sorted_month_buckets env xs)
        \<and> r \<in> set (bitems b)"
    using month_buckets_holds by (simp add: set_sorted_month_buckets)
  show "\<forall>p\<in>set (sorted_month_buckets env xs). \<exists>r\<in>set xs.
        fst p = formatMonth env (receivedDateTime r)
        \<and> sortKey (snd p) = monthSortKey env (receivedDateTime r)"
  proof
    fix p assume "p \<in> set (sorted_month_buckets env xs)"
    then have "map_of (month_buckets env xs) (fst p) = Some (snd p)"
      using set_sorted_month_buckets[of "fst p" "snd p" env xs] by simp
    from month_buckets_keys[OF this]
    show "\<exists>r\<in>set xs. fst p = formatMonth env (receivedDateTime r)
        \<and> sortKey (snd p) = monthSortKey env (receivedDateTime r)" .
  qed
  show "map monthLabel (grouped env xs) = map fst (sorted_month_buckets env xs)"
    by (rule grouped_labels)
  show "sorted_wrt (\<lambda>a b. \<not> str_lt (sortKey (snd a)) (sortKey (snd b))) (sorted_month_buckets env xs)"
    by (rule sorted_month_buckets_sorted)
  show "\<forall>i j t. i < length (sorted_month_buckets env xs) \<and> j < length (sorted_month_buckets env xs)
        \<and> sortKey (snd (sorted_month_buckets env xs ! i)) = u ''0000-00''
        \<and> sortKey (snd (sorted_month_buckets env xs ! j)) = year_month_key env t
        \<and> 1 \<le> getFullYear env t \<longrightarrow> j < i"
    using unknown_after_dated by blast
qed


text \<open>The theorem at a list that meets the record without a timestamp first.\<close>

theorem unknown_month_sorts_after_dated_months_witness:
  "date_parse utc_env (u ''not a date'') = None
   \<and> formatMonth utc_env (u ''not a date'') = u ''Unknown Month''
   \<and> monthSortKey utc_env (u ''not a date'') = u ''0000-00''
   \<and> map fst (sorted_month_buckets utc_env [po_missing, po_a]) = [u ''March 2024'', u ''Unknown Month'']
   \<and> sortKey (snd (sorted_month_buckets utc_env [po_missing, po_a] ! 1)) = u ''0000-00''
   \<and> sortKey (snd (sorted_month_buckets utc_env [po_missing, po_a] ! 0)) = year_month_key utc_env 1709632800000
   \<and> 1 \<le> getFullYear utc_env 1709632800000
   \<and> (0::nat) < 1"
proof -
  have n: "date_parse utc_env (u ''not a date'') = None" by code_simp
  have a: "map fst (sorted_month_buckets utc_env [po_missing, po_a]) = [u ''March 2024'', u ''Unknown Month'']"
    by code_simp
  have l: "length (sorted_month_buckets utc_env [po_missing, po_a]) = 2"
    by code_simp
  have b: "sortKey (snd (sorted_month_buckets utc_env [po_missing, po_a] ! 1)) = u ''0000-00''"
    by code_simp
  have c: "sortKey (snd (sorted_month_buckets utc_env [po_missing, po_a] ! 0)) = year_month_key utc_env 1709632800000"
    by code_simp
  have d: "1 \<le> getFullYear utc_env 1709632800000" by code_simp
  note t = unknown_month_sorts_after_dated_months[of utc_env "[po_missing, po_a]"]
  from t n have m: "formatMonth utc_env (u ''not a date'') = u ''Unknown Month''
      \<and> monthSortKey utc_env (u ''not a date'') = u ''0000-00''"
    by blast
  from t have "\<forall>i j t. i < length (sorted_month_buckets utc_env [po_missing, po_a])
        \<and> j < length (sorted_month_buckets utc_env [po_missing, po_a])
        \<and> sortKey (snd (sorted_month_buckets utc_env [po_missing, po_a] ! i)) = u ''0000-00''
        \<and> sortKey (snd (sorted_month_buckets utc_env [po_missing, po_a] ! j)) = year_month_key utc_env t
        \<and> 1 \<le> getFullYear utc_env t \<longrightarrow> j < i"
    by blast
  then have "1 < (2::nat) \<and> 0 < (2::nat) \<longrightarrow> (0::nat) < 1" using l b c d by metis
  with n m a b c d show ?thesis by simp
qed

text \<open>
  Claim C3 as stated fails for a date in the year 0: the year is written without padding,
  its key \<open>0-06\<close> is below \<open>0000-00\<close> as a string, and the bucket \<open>Unknown Month\<close>
  comes first.
\<close>

theorem unknown_month_before_year_zero_counterexample:
  "date_parse utc_env (receivedDateTime po_year0) = Some (- 62152876800000)
   \<and> getFullYear utc_env (- 62152876800000) = 0
   \<and> date_of utc_env (receivedDateTime po_missing) = None
   \<and> map (\<lambda>p. sortKey (snd p)) (sorted_month_buckets utc_env [po_year0, po_missing])
       = [u ''0000-00'', u ''0-06'']
   \<and> length (grouped utc_env [po_year0, po_missing]) = 2
   \<and> monthLabel (hd (grouped utc_env [po_year0, po_missing])) = u ''Unknown Month''
   \<and> map mail_id (concat (map group_items (groups (grouped utc_env [po_year0, po_missing] ! 1))))
       = [mail_id po_year0]"
  by code_simp

section \<open>Company deduplication of the groups of the page\<close>












section \<open>Properties of the extractor\<close>

lemmas re_defs = lit_i_def one_def ws_star_def ws_plus_def words_lazy_def any_lazy_def
  eq_i_def lower_def is_ws_def is_alpha_def is_num_def is_dot_def dec_def u_def

lemmas field_defs = re_candidate_name_def re_phone_number_def re_email_def re_location_def
  re_position_applied_def re_job_location_def re_end_client_def re_rate_def
  re_interview_support_by_def re_team_lead_def re_manager_def re_interview_def

lemmas extract_defs = extractPoDetails_def normalizeText_def replace_all.simps Let_def then_e_def
  find_re_def interviewSection_def or_str_def group1_def trim_def

lemma rmatch_marks: "rmatch re b s = Some (rest, m) \<Longrightarrow> length m = ngroups re"
proof (induction re b s arbitrary: rest m rule: rmatch.induct)
  case (1 bol s)
  then show ?case by simp
next
  case (2 p lo hi g r bol s)
  then show ?case
    by (cases s) (auto split: if_splits option.splits)
next
  case (3 r bol s)
  then show ?case by (auto split: option.splits)
next
  case (4 r bol s)
  then show ?case by (auto split: option.splits)
next
  case (5 alts r bol s)
  then show ?case by (auto split: if_splits)
next
  case (6 r bol s)
  then show ?case by (auto split: if_splits)
next
  case (7 r bol s)
  then show ?case by (auto split: if_splits)
qed

lemma rsearch_marks: "rsearch re b s = Some (rest, m) \<Longrightarrow> length m = ngroups re"
  by (induction re b s rule: rsearch.induct) (auto split: option.splits dest: rmatch_marks)

lemma trim_no_lead: "dropWhile is_ws (trim s) = trim s"
proof -
  let ?a = "dropWhile is_ws s"
  let ?b = "rev (dropWhile is_ws (rev ?a))"
  have ab: "?a = ?b @ rev (takeWhile is_ws (rev ?a))"
    by (metis rev_append rev_rev_ident takeWhile_dropWhile_id)
  show ?thesis
  proof (cases "?b")
    case Nil
    have "dropWhile is_ws ?b = ?b" unfolding Nil by simp
    then show ?thesis unfolding trim_def .
  next
    case (Cons x xs)
    then have "hd ?a = x" using ab by (metis hd_append2 list.distinct(1) list.sel(1))
    moreover have "?a \<noteq> []" using ab Cons by (metis Nil_is_append_conv list.distinct(1))
    ultimately have "\<not> is_ws x" using hd_dropWhile[of is_ws s] by auto
    then have "dropWhile is_ws ?b = ?b" unfolding Cons by simp
    then show ?thesis unfolding trim_def .
  qed
qed

lemma trim_no_trail: "dropWhile is_ws (rev (trim s)) = rev (trim s)"
proof -
  have "rev (trim s) = dropWhile is_ws (rev (dropWhile is_ws s))" by (simp add: trim_def)
  then show ?thesis by (simp add: dropWhile_idem)
qed

lemma trim_idem: "trim (trim s) = trim s"
proof -
  have "trim (trim s) = rev (dropWhile is_ws (rev (dropWhile is_ws (trim s))))"
    by (simp add: trim_def)
  also have "\<dots> = rev (dropWhile is_ws (rev (trim s)))" by (simp add: trim_no_lead)
  also have "\<dots> = trim s" by (simp add: trim_no_trail)
  finally show ?thesis .
qed

lemma find_re_total:
  assumes "ngroups re = 2"
  shows "\<exists>v. find_re re s = Inr v \<and> trimmed_or_absent v"
proof (cases "rsearch re True s")
  case None
  then show ?thesis by (simp add: find_re_def trimmed_or_absent_def)
next
  case (Some a)
  obtain rest m where a: "a = (rest, m)" by (cases a)
  with Some rsearch_marks assms have "length m = 2" by metis
  then obtain x y where "m = [x, y]"
    by (metis One_nat_def Suc_1 length_0_conv length_Suc_conv)
  with Some a show ?thesis
    by (simp add: find_re_def group1_def trimmed_or_absent_def trim_idem)
qed

lemma ngroups_append_lit_i: "ngroups (lit_i s @ r) = ngroups r"
  by (induction s) (simp_all add: lit_i_def one_def)

lemma ngroups_fields:
  "ngroups re_candidate_name = 2" "ngroups re_phone_number = 2" "ngroups re_email = 2"
  "ngroups re_location = 2" "ngroups re_position_applied = 2" "ngroups re_job_location = 2"
  "ngroups re_end_client = 2" "ngroups re_rate = 2" "ngroups re_interview_support_by = 2"
  "ngroups re_team_lead = 2" "ngroups re_manager = 2"
  by (simp_all add: field_defs ngroups_append_lit_i ws_star_def ws_plus_def words_lazy_def
      any_lazy_def one_def)

text \<open>The fields of the result are what the calls of \<open>find\<close> give, and none raises.\<close>

lemma extractPoDetails_fields:
  "\<exists>e. extractPoDetails inp = Inr e
     \<and> find_re re_candidate_name (normalizeText inp) = Inr (candidate_name e)
     \<and> find_re re_phone_number (normalizeText inp) = Inr (phone_number e)
     \<and> find_re re_email (normalizeText inp) = Inr (email e)
     \<and> find_re re_location (normalizeText inp) = Inr (location e)
     \<and> find_re re_position_applied (normalizeText inp) = Inr (position_applied e)
     \<and> find_re re_job_location (normalizeText inp) = Inr (job_location e)
     \<and> find_re re_end_client (normalizeText inp) = Inr (end_client e)
     \<and> find_re re_rate (normalizeText inp) = Inr (rate e)
     \<and> find_re re_interview_support_by (or_str (interviewSection (normalizeText inp)) [])
          = Inr (interview_support_by e)
     \<and> find_re re_team_lead (or_str (interviewSection (normalizeText inp)) []) = Inr (team_lead e)
     \<and> find_re re_manager (or_str (interviewSection (normalizeText inp)) []) = Inr (manager e)"
proof -
  let ?t = "normalizeText inp" and ?s = "or_str (interviewSection (normalizeText inp)) []"
  obtain f1 where f1: "find_re re_candidate_name ?t = Inr f1"
    using find_re_total[OF ngroups_fields(1)] by blast
  obtain f2 where f2: "find_re re_phone_number ?t = Inr f2"
    using find_re_total[OF ngroups_fields(2)] by blast
  obtain f3 where f3: "find_re re_email ?t = Inr f3"
    using find_re_total[OF ngroups_fields(3)] by blast
  obtain f4 where f4: "find_re re_location ?t = Inr f4"
    using find_re_total[OF ngroups_fields(4)] by blast
  obtain f5 where f5: "find_re re_position_applied ?t = Inr f5"
    using find_re_total[OF ngroups_fields(5)] by blast
  obtain f6 where f6: "find_re re_job_location ?t = Inr f6"
    using find_re_total[OF ngroups_fields(6)] by blast
  obtain f7 where f7: "find_re re_end_client ?t = Inr f7"
    using find_re_total[OF ngroups_fields(7)] by blast
  obtain f8 where f8: "find_re re_rate ?t = Inr f8"
    using find_re_total[OF ngroups_fields(8)] by blast
  obtain f9 where f9: "find_re re_interview_support_by ?s = Inr f9"
    using find_re_total[OF ngroups_fields(9)] by blast
  obtain f10 where f10: "find_re re_team_lead ?s = Inr f10"
    using find_re_total[OF ngroups_fields(10)] by blast
  obtain f11 where f11: "find_re re_manager ?s = Inr f11"
    using find_re_total[OF ngroups_fields(11)] by blast
  show ?thesis
    unfolding extractPoDetails_def Let_def
    by (simp add: f1 f2 f3 f4 f5 f6 f7 f8 f9 f10 f11 then_e_def)
qed

text \<open>\<open>htmlToText\<close> does not raise: the extractor it calls returns on every text.\<close>

lemma htmlToText_total: "\<exists>r. htmlToText h = Inr r"
proof (cases "falsy h")
  case True
  then show ?thesis by (simp add: htmlToText_def)
next
  case False
  obtain e where "extractPoDetails (Str (html_text h)) = Inr e"
    using extractPoDetails_fields[of "Str (html_text h)"] by blast
  with False show ?thesis by (simp add: htmlToText_def then_e_def)
qed

lemma rsearch_skip:
  "no_match_in re b p rest \<Longrightarrow> rest \<noteq> [] \<Longrightarrow> rsearch re b (p @ rest) = rsearch re (b \<and> p = []) rest"
  by (induction p arbitrary: b) auto

lemma interview_at_span:
  "rmatch re_interview b (span_text @ q) =
     Some (u '' Marketing Application'' @ q,
           [u ''Alice Team Lead Bob Manager Carol Marketing Application'' @ q,
            u '' Marketing Application'' @ q])"
  by (simp add: span_text_def re_interview_def re_defs)

lemma section_of_span:
  assumes "no_match_in re_interview True p (span_text @ q)"
  shows "interviewSection (p @ span_text @ q) = Some (u ''Alice Team Lead Bob Manager Carol'')"
proof -
  have ne: "span_text @ q \<noteq> []" by (simp add: span_text_def u_def)
  then obtain c cs where c: "span_text @ q = c # cs" by (cases "span_text @ q") auto
  have "rsearch re_interview True (p @ span_text @ q) = rsearch re_interview (p = []) (span_text @ q)"
    using rsearch_skip[OF assms ne] by simp
  also have "\<dots> = rmatch re_interview (p = []) (span_text @ q)"
    using interview_at_span[of "p = []" q] c by simp
  finally have "rsearch re_interview True (p @ span_text @ q) =
     Some (u '' Marketing Application'' @ q,
           [u ''Alice Team Lead Bob Manager Carol Marketing Application'' @ q,
            u '' Marketing Application'' @ q])"
    by (simp add: interview_at_span)
  then show ?thesis by (simp add: interviewSection_def group1_def u_def)
qed

lemma fields_of_section:
  "find_re re_interview_support_by (u ''Alice Team Lead Bob Manager Carol'') = Inr (Some (u ''Alice''))"
  "find_re re_team_lead (u ''Alice Team Lead Bob Manager Carol'') = Inr (Some (u ''Bob''))"
  "find_re re_manager (u ''Alice Team Lead Bob Manager Carol'') = Inr (Some (u ''Carol''))"
  by (simp_all add: find_re_def group1_def trim_def field_defs re_defs)

lemma fields_of_no_section:
  "find_re re_interview_support_by [] = Inr None"
  "find_re re_team_lead [] = Inr None"
  "find_re re_manager [] = Inr None"
  by (simp_all add: find_re_def group1_def trim_def field_defs re_defs)

text \<open>
  Claim C2, as the code has it. When the normalized text holds the span and the section
  pattern matches at no position before it, the three fields are Alice, Bob and Carol,
  whatever stands before the span (another \<open>Manager\<close> label too) and after it; when the
  section pattern finds nothing, the three fields are absent; and the manager field is
  always read from the isolated section alone.
\<close>

theorem interview_section_fields:
  "(normalizeText inp = p @ span_text @ q \<and> no_match_in re_interview True p (span_text @ q) \<longrightarrow>
      (\<exists>e. extractPoDetails inp = Inr e \<and> interview_support_by e = Some (u ''Alice'')
         \<and> team_lead e = Some (u ''Bob'') \<and> manager e = Some (u ''Carol'')))
   \<and> (interviewSection (normalizeText inp) = None \<longrightarrow>
      (\<exists>e. extractPoDetails inp = Inr e \<and> interview_support_by e = None
         \<and> team_lead e = None \<and> manager e = None))
   \<and> (\<exists>e. extractPoDetails inp = Inr e
         \<and> find_re re_manager (or_str (interviewSection (normalizeText inp)) []) = Inr (manager e))"
proof -
  obtain e where e: "extractPoDetails inp = Inr e"
    and f: "find_re re_interview_support_by (or_str (interviewSection (normalizeText inp)) [])
          = Inr (interview_support_by e)"
      "find_re re_team_lead (or_str (interviewSection (normalizeText inp)) []) = Inr (team_lead e)"
      "find_re re_manager (or_str (interviewSection (normalizeText inp)) []) = Inr (manager e)"
    using extractPoDetails_fields[of inp] by blast
  have a: "interview_support_by e = Some (u ''Alice'') \<and> team_lead e = Some (u ''Bob'')
      \<and> manager e = Some (u ''Carol'')"
    if "normalizeText inp = p @ span_text @ q" "no_match_in re_interview True p (span_text @ q)"
  proof -
    have "interviewSection (normalizeText inp) = Some (u ''Alice Team Lead Bob Manager Carol'')"
      using that section_of_span by simp
    then have "or_str (interviewSection (normalizeText inp)) [] = u ''Alice Team Lead Bob Manager Carol''"
      by (simp add: or_str_def u_def)
    with f fields_of_section show ?thesis by simp
  qed
  have b: "interview_support_by e = None \<and> team_lead e = None \<and> manager e = None"
    if "interviewSection (normalizeText inp) = None"
  proof -
    have "or_str (interviewSection (normalizeText inp)) [] = []"
      using that by (simp add: or_str_def)
    with f fields_of_no_section show ?thesis by simp
  qed
  from e f a b show ?thesis by blast
qed

text \<open>The theorem at a body with a \<open>Manager\<close> label before the section, and at a body without a section.\<close>

theorem interview_section_fields_witness:
  "normalizeText mail_with_earlier_manager = u ''Hiring Manager Dave wrote. '' @ span_text @ u '' form''
   \<and> no_match_in re_interview True (u ''Hiring Manager Dave wrote. '') (span_text @ u '' form'')
   \<and> (\<exists>e. extractPoDetails mail_with_earlier_manager = Inr e \<and> interview_support_by e = Some (u ''Alice'')
         \<and> team_lead e = Some (u ''Bob'') \<and> manager e = Some (u ''Carol''))
   \<and> interviewSection (normalizeText (Str (u ''hello''))) = None
   \<and> (\<exists>e. extractPoDetails (Str (u ''hello'')) = Inr e \<and> interview_support_by e = None
         \<and> team_lead e = None \<and> manager e = None)"
proof -
  have a: "normalizeText mail_with_earlier_manager = u ''Hiring Manager Dave wrote. '' @ span_text @ u '' form''"
    by (simp add: mail_with_earlier_manager_def span_text_def normalizeText_def replace_all.simps trim_def re_defs)
  have b: "no_match_in re_interview True (u ''Hiring Manager Dave wrote. '') (span_text @ u '' form'')"
    by (simp add: span_text_def re_interview_def re_defs)
  have c: "interviewSection (normalizeText (Str (u ''hello''))) = None"
    by (simp add: interviewSection_def normalizeText_def replace_all.simps trim_def re_interview_def re_defs)
  show ?thesis
    using interview_section_fields[of mail_with_earlier_manager "u ''Hiring Manager Dave wrote. ''" "u '' form''"]
      interview_section_fields[of "Str (u ''hello'')"] a b c
    by blast
qed

text \<open>
  Claim C2 as stated fails for a body that holds the span after an earlier section: the
  first match of the section pattern wins, and the three fields are absent.
\<close>

theorem earlier_section_counterexample:
  "normalizeText mail_with_two_sections = u ''Interview Support Support by Zed Thanks '' @ span_text @ u '' form''
   \<and> extractPoDetails mail_with_two_sections =
      Inr \<lparr> candidate_name = None, phone_number = None, email = None, location = None,
            position_applied = None, job_location = None, end_client = None, rate = None,
            interview_support_by = None, team_lead = None, manager = None \<rparr>"
  by (simp add: mail_with_two_sections_def span_text_def extract_defs field_defs re_defs)

text \<open>
  Claim C7, as the code has it. For the line of the template the candidate name is
  Jane Doe and the location is absent: the pattern for the location takes letters right
  after the label and white space, and the line has a colon there. Without the colon the
  location is USA.
\<close>

theorem template_line_fields:
  "extractPoDetails (Str (u ''Name of Candidate: Jane Doe SST Location: USA'')) =
      Inr \<lparr> candidate_name = Some (u ''Jane Doe''), phone_number = None, email = None,
            location = None, position_applied = None, job_location = None, end_client = None,
            rate = None, interview_support_by = None, team_lead = None, manager = None \<rparr>
   \<and> extractPoDetails (Str (u ''Name of Candidate: Jane Doe SST Location USA'')) =
      Inr \<lparr> candidate_name = Some (u ''Jane Doe''), phone_number = None, email = None,
            location = Some (u ''USA''), position_applied = None, job_location = None,
            end_client = None, rate = None, interview_support_by = None, team_lead = None,
            manager = None \<rparr>"
  by (simp add: extract_defs field_defs re_defs)

text \<open>Claim C7 as stated fails: the location of the line is not USA.\<close>

theorem location_with_colon_counterexample:
  "\<not> (\<exists>e. extractPoDetails (Str (u ''Name of Candidate: Jane Doe SST Location: USA'')) = Inr e
        \<and> candidate_name e = Some (u ''Jane Doe'') \<and> location e = Some (u ''USA''))"
  by (simp add: extract_defs field_defs re_defs)

section \<open>Properties of the normalizer\<close>

lemma rmatch_suffix: "rmatch re b s = Some (rest, m) \<Longrightarrow> \<exists>pre. s = pre @ rest"
proof (induction re b s arbitrary: rest m rule: rmatch.induct)
  case (1 bol s)
  then show ?case by simp
next
  case (2 p lo hi g r bol s)
  show ?case
  proof (cases s)
    case Nil
    with 2 show ?thesis by (auto split: if_splits option.splits)
  next
    case (Cons c cs)
    with 2 show ?thesis
      by (auto split: if_splits option.splits) (metis append_Cons)+
  qed
next
  case (3 r bol s)
  then show ?case by (auto split: option.splits)
next
  case (4 r bol s)
  then show ?case by (auto split: option.splits)
next
  case (5 alts r bol s)
  then show ?case by (auto split: if_splits)
next
  case (6 r bol s)
  then show ?case by (auto split: if_splits)
next
  case (7 r bol s)
  then show ?case by (auto split: if_splits)
qed

lemma rmatch_Rep_Suc:
  "rmatch (Rep p (Suc n) hi g # r) b s = Some z \<Longrightarrow>
     \<exists>c cs. s = c # cs \<and> p c \<and> rmatch (Rep p n (dec hi) g # r) False cs = Some z"
  by (cases s) (auto split: if_splits)

lemma rmatch_one:
  "rmatch (one p # r) b s = (case s of [] \<Rightarrow> None | c # cs \<Rightarrow> if p c then rmatch r False cs else None)"
  by (cases s) (simp_all add: one_def dec_def)

lemma rmatch_lit_i:
  "rmatch (lit_i L @ r) b s =
     (if starts_i L s then rmatch r (b \<and> L = []) (drop (length L) s) else None)"
proof (induction L arbitrary: b s)
  case Nil
  then show ?case by (simp add: lit_i_def)
next
  case (Cons a L)
  have "lit_i (a # L) @ r = one (eq_i (of_char a)) # (lit_i L @ r)" by (simp add: lit_i_def)
  then show ?case using Cons[of False] by (cases s) (simp_all add: rmatch_one)
     
qed

lemma proper_Rep:
  assumes "\<And>c. p c \<Longrightarrow> c \<noteq> 62"
  shows "proper (Rep p (Suc n) hi g # r)"
  unfolding proper_def
proof (intro allI impI)
  fix b s rest m assume "rmatch (Rep p (Suc n) hi g # r) b s = Some (rest, m)"
  from rmatch_Rep_Suc[OF this] obtain c cs where
    c: "s = c # cs" "p c" "rmatch (Rep p n (dec hi) g # r) False cs = Some (rest, m)" by blast
  from rmatch_suffix[OF c(3)] obtain pre where "cs = pre @ rest" by blast
  with c assms show "\<exists>c pre. s = c # pre @ rest \<and> c \<noteq> 62" by auto
qed

lemma replace_all_Nil: "proper re \<Longrightarrow> replace_all re rep b [] = []"
  by (auto simp: replace_all.simps proper_def split: option.splits)

lemma replace_all_nomatch:
  "rmatch re b (c # cs) = None \<Longrightarrow> replace_all re rep b (c # cs) = c # replace_all re rep False cs"
  by (simp add: replace_all.simps)

lemma replace_all_match:
  assumes "proper re" and "rmatch re b s = Some (rest, m)"
  shows "replace_all re rep b s = rep @ replace_all re rep False rest"
    and "\<exists>c pre. s = c # pre @ rest \<and> c \<noteq> 62"
proof -
  show s: "\<exists>c pre. s = c # pre @ rest \<and> c \<noteq> 62" using assms unfolding proper_def by blast
  then have "length rest < length s" by auto
  then show "replace_all re rep b s = rep @ replace_all re rep False rest"
    using assms(2) by (simp add: replace_all.simps)
qed

lemma set_replace_all:
  "proper re \<Longrightarrow> set (replace_all re [32] b s) \<subseteq> insert 32 (set s)"
proof (induction s arbitrary: b rule: length_induct)
  case (1 s)
  show ?case
  proof (cases "rmatch re b s")
    case None
    show ?thesis
    proof (cases s)
      case Nil
      then show ?thesis using 1 by (simp add: replace_all_Nil)
    next
      case (Cons c cs)
      then show ?thesis using None 1 by (auto simp: replace_all_nomatch)
    qed
  next
    case (Some z)
    obtain rest m where z: "z = (rest, m)" by (cases z)
    from replace_all_match[OF "1.prems" Some[unfolded z]] obtain c pre where
      r: "replace_all re [32] b s = [32] @ replace_all re [32] False rest" and s: "s = c # pre @ rest"
      by blast
    have "set (replace_all re [32] False rest) \<subseteq> insert 32 (set rest)"
      using 1 s by simp
    then show ?thesis using r s by auto
  qed
qed


lemma nowhere_suffix: "nowhere P (xs @ ys) \<Longrightarrow> nowhere P ys"
  by (induction xs) auto

lemma nowhere_prefix:
  assumes "\<And>x y. P x \<Longrightarrow> P (x @ y)"
  shows "nowhere P (xs @ ys) \<Longrightarrow> nowhere P xs"
proof (induction xs)
  case Nil
  then show ?case by simp
next
  case (Cons c xs)
  then show ?case using assms[of "c # xs" ys] by auto
qed

lemma tag_at_append: "tag_at x \<Longrightarrow> tag_at (x @ y)"
  by (auto simp: tag_at_def split: list.splits)

lemma starts_i_append: "starts_i L x \<Longrightarrow> starts_i L (x @ y)"
  by (induction L x rule: starts_i.induct) auto

lemma ent_at_append: "ent_at x \<Longrightarrow> ent_at (x @ y)"
  by (simp add: ent_at_def starts_i_append)

lemma not_tag_at_space: "\<not> tag_at (32 # x)"
  by (simp add: tag_at_def split: list.splits)

lemma not_ent_at_space: "\<not> ent_at (32 # x)"
  by (simp add: ent_at_def eq_i_def lower_def)

lemma tag_keep:
  assumes p: "proper re" and n: "\<not> tag_at (c # cs)"
  shows "\<not> tag_at (c # replace_all re [32] b cs)"
proof
  assume t: "tag_at (c # replace_all re [32] b cs)"
  then obtain b' r' where R: "replace_all re [32] b cs = b' # r'" and c: "c = 60" and b': "b' \<noteq> 62"
    and g: "62 \<in> set r'"
    by (auto simp: tag_at_def split: list.splits)
  from R p obtain d ds where cs: "cs = d # ds" by (cases cs) (auto simp: replace_all_Nil)
  show False
  proof (cases "rmatch re b cs")
    case None
    then have "replace_all re [32] b cs = d # replace_all re [32] False ds"
      using cs by (simp add: replace_all_nomatch)
    with R have "b' = d" "r' = replace_all re [32] False ds" by auto
    with g set_replace_all[OF p, of False ds] have "62 \<in> set ds" by auto
    with \<open>b' = d\<close> b' c cs n show False by (simp add: tag_at_def)
  next
    case (Some z)
    obtain rest m where z: "z = (rest, m)" by (cases z)
    from replace_all_match(1)[OF p Some[unfolded z], of "[32]"]
      replace_all_match(2)[OF p Some[unfolded z]] obtain e pre where
      r: "replace_all re [32] b cs = [32] @ replace_all re [32] False rest"
      and s: "cs = e # pre @ rest" "e \<noteq> 62"
      by blast
    from r R have "r' = replace_all re [32] False rest" by simp
    with g set_replace_all[OF p, of False rest] have "62 \<in> set rest" by auto
    with s cs have "d \<noteq> 62" "62 \<in> set ds" by auto
    with c cs n show False by (simp add: tag_at_def)
  qed
qed

lemma starts_keep:
  assumes p: "proper re"
  shows "\<forall>a\<in>set L. \<not> eq_i (of_char a) 32 \<Longrightarrow> starts_i L (replace_all re [32] b s) \<Longrightarrow> starts_i L s"
proof (induction L arbitrary: s b)
  case Nil
  then show ?case by simp
next
  case (Cons a L)
  from Cons.prems(2) obtain c' t where R: "replace_all re [32] b s = c' # t"
    and e: "eq_i (of_char a) c'" and t: "starts_i L t"
    by (cases "replace_all re [32] b s") auto
  from R p obtain c cs where s: "s = c # cs" by (cases s) (auto simp: replace_all_Nil)
  have c32: "c' \<noteq> 32" using e Cons.prems(1) by auto
  show ?case
  proof (cases "rmatch re b s")
    case None
    then have "replace_all re [32] b s = c # replace_all re [32] False cs"
      using s by (simp add: replace_all_nomatch)
    with R have "c' = c" "t = replace_all re [32] False cs" by auto
    with Cons.IH[of False cs] Cons.prems(1) t e s show ?thesis by simp
  next
    case (Some z)
    obtain rest m where z: "z = (rest, m)" by (cases z)
    from replace_all_match(1)[OF p Some[unfolded z], of "[32]"] R c32 show ?thesis by simp
  qed
qed

lemma ent_keep:
  assumes p: "proper re" and n: "\<not> ent_at (c # cs)"
  shows "\<not> ent_at (c # replace_all re [32] b cs)"
proof
  assume "ent_at (c # replace_all re [32] b cs)"
  then have e: "eq_i (of_char CHR ''&'') c" and s: "starts_i ''nbsp;'' (replace_all re [32] b cs)"
    by (simp_all add: ent_at_def)
  have "\<forall>a\<in>set ''nbsp;''. \<not> eq_i (of_char a) 32" by (simp add: eq_i_def lower_def)
  from starts_keep[OF p this s] e n show False by (simp add: ent_at_def)
qed

lemma nowhere_replace_all:
  assumes p: "proper re"
    and keep: "\<And>c cs b. \<not> P (c # cs) \<Longrightarrow> \<not> P (c # replace_all re [32] b cs)"
    and sp: "\<And>x. \<not> P (32 # x)"
  shows "nowhere P s \<or> (\<forall>b x. rmatch re b x = None \<longrightarrow> \<not> P x) \<Longrightarrow>
     nowhere P (replace_all re [32] b s)"
proof (induction s arbitrary: b rule: length_induct)
  case (1 s)
  show ?case
  proof (cases "rmatch re b s")
    case None
    show ?thesis
    proof (cases s)
      case Nil
      then show ?thesis using p by (simp add: replace_all_Nil)
    next
      case (Cons c cs)
      have "\<not> P (c # cs)" using "1.prems" None Cons by auto
      then have a: "\<not> P (c # replace_all re [32] False cs)" by (rule keep)
      have "nowhere P cs \<or> (\<forall>b x. rmatch re b x = None \<longrightarrow> \<not> P x)" using "1.prems" Cons by auto
      then have "nowhere P (replace_all re [32] False cs)" using "1.IH" Cons by auto
      with a None Cons show ?thesis by (simp add: replace_all_nomatch)
    qed
  next
    case (Some z)
    obtain rest m where z: "z = (rest, m)" by (cases z)
    from replace_all_match(1)[OF p Some[unfolded z], of "[32]"]
      replace_all_match(2)[OF p Some[unfolded z]] obtain c pre where
      r: "replace_all re [32] b s = [32] @ replace_all re [32] False rest"
      and s: "s = c # pre @ rest"
      by blast
    have "nowhere P s \<longrightarrow> nowhere P rest"
      using s nowhere_suffix[of P "c # pre" rest] by simp
    then have "nowhere P rest \<or> (\<forall>b x. rmatch re b x = None \<longrightarrow> \<not> P x)" using "1.prems" by blast
    then have "nowhere P (replace_all re [32] False rest)" using "1.IH" s by auto
    then show ?thesis using r sp by simp
  qed
qed

lemma replace_all_id:
  assumes m: "\<And>b x. rmatch re b x \<noteq> None \<Longrightarrow> P x" and e: "\<not> P []"
  shows "nowhere P s \<Longrightarrow> replace_all re rep b s = s"
proof (induction s arbitrary: b)
  case Nil
  have "rmatch re b [] = None" using m[of b "[]"] e by blast
  then show ?case by (simp add: replace_all.simps)
next
  case (Cons c cs)
  then have "rmatch re b (c # cs) = None" using m[of b "c # cs"] by (cases "rmatch re b (c # cs)") auto
  then show ?case using Cons by (simp add: replace_all_nomatch)
qed

lemma rmatch_star_end: "rmatch [Rep p 0 None True] b s = Some (dropWhile p s, [])"
  by (induction s arbitrary: b) (simp_all add: dec_def)

lemma rmatch_star_one:
  assumes "\<And>c. q c \<Longrightarrow> \<not> p c"
  shows "rmatch [Rep p 0 None True, one q] b s =
     (case dropWhile p s of [] \<Rightarrow> None | d # r \<Rightarrow> if q d then Some (r, []) else None)"
proof (induction s arbitrary: b)
  case Nil
  then show ?case by (simp add: rmatch_one)
next
  case (Cons c cs)
  show ?case
  proof (cases "p c")
    case True
    then have "\<not> q c" using assms by blast
    with True Cons[of False] show ?thesis
      by (simp add: dec_def rmatch_one split: list.splits option.splits)
  next
    case False
    then show ?thesis by (simp add: rmatch_one)
  qed
qed

text \<open>What is left of a tag pattern after the opening bracket and the optional slash.\<close>

lemma tag_body:
  "rmatch [Rep (\<lambda>c. c \<noteq> 62) (Suc 0) None True, one (\<lambda>c. c = 62)] b x \<noteq> None \<longleftrightarrow>
     (\<exists>e x'. x = e # x' \<and> e \<noteq> 62 \<and> 62 \<in> set x')"
proof (cases x)
  case Nil
  then show ?thesis by simp
next
  case (Cons e x')
  let ?p = "\<lambda>c::nat. c \<noteq> 62" and ?q = "\<lambda>c::nat. c = 62"
  have step: "rmatch [Rep ?p (Suc 0) None True, one ?q] b (e # x') =
      (if e \<noteq> 62 then rmatch [Rep ?p 0 None True, one ?q] False x' else None)"
    by (simp add: dec_def)
  have star: "rmatch [Rep ?p 0 None True, one ?q] False x' =
      (case dropWhile ?p x' of [] \<Rightarrow> None | d # r \<Rightarrow> if d = 62 then Some (r, []) else None)"
    by (rule rmatch_star_one) simp
  have d: "dropWhile ?p x' \<noteq> [] \<longleftrightarrow> 62 \<in> set x'"
    by (induction x') auto
  have h: "dropWhile ?p x' \<noteq> [] \<Longrightarrow> hd (dropWhile ?p x') = 62"
    using hd_dropWhile[of ?p x'] by simp
  have "rmatch [Rep ?p 0 None True, one ?q] False x' \<noteq> None \<longleftrightarrow> 62 \<in> set x'"
  proof (cases "dropWhile ?p x'")
    case Nil
    have "62 \<notin> set x'" using d Nil by blast
    then show ?thesis unfolding star Nil by simp
  next
    case (Cons d r)
    have "d = 62 \<and> 62 \<in> set x'" using d h Cons by (metis list.sel(1) list.distinct(1))
    then show ?thesis unfolding star Cons by simp
  qed
  then show ?thesis unfolding Cons step by simp
qed

lemma tag_match_iff: "rmatch re_tag b s \<noteq> None \<longleftrightarrow> tag_at s"
proof (cases s)
  case Nil
  then show ?thesis by (simp add: re_tag_def rmatch_one tag_at_def)
next
  case (Cons a t)
  let ?R = "[Rep (\<lambda>c. c \<noteq> 62) (Suc 0) None True, one (\<lambda>c. c = 62)]"
  have body: "\<And>b x. rmatch ?R b x \<noteq> None \<longleftrightarrow> (\<exists>e x'. x = e # x' \<and> e \<noteq> 62 \<and> 62 \<in> set x')"
    by (rule tag_body)
  show ?thesis
  proof (cases "a = 60")
    case False
    then show ?thesis using Cons by (simp add: re_tag_def rmatch_one tag_at_def split: list.splits)
  next
    case True
    have t: "tag_at s \<longleftrightarrow> (\<exists>e x'. t = e # x' \<and> e \<noteq> 62 \<and> 62 \<in> set x')"
      using Cons True by (auto simp: tag_at_def split: list.splits)
    have m: "rmatch re_tag b s = rmatch (Rep (\<lambda>c. c = 47) 0 (Some (Suc 0)) True # ?R) False t"
      using Cons True by (simp add: re_tag_def rmatch_one)
    show ?thesis
    proof (cases t)
      case Nil
      then show ?thesis using m t by simp
    next
      case T: (Cons d t')
      show ?thesis
      proof (cases "d = 47 \<and> rmatch ?R False t' \<noteq> None")
        case True
        then have "rmatch re_tag b s \<noteq> None" using m T by (auto simp: dec_def)
        moreover from True body[of False t'] have "62 \<in> set t'" by auto
        ultimately show ?thesis using t T True by auto
      next
        case False
        then have "rmatch re_tag b s = rmatch ?R False t"
          using m T by (auto simp: dec_def split: option.splits)
        then show ?thesis using body[of False t] t by simp
      qed
    qed
  qed
qed

lemma starts_i_gt:
  "starts_i L x \<Longrightarrow> L \<noteq> [] \<Longrightarrow> last L = CHR ''>'' \<Longrightarrow> 62 \<in> set x"
proof (induction L x rule: starts_i.induct)
  case (1 s)
  then show ?case by simp
next
  case (2 a as)
  then show ?case by simp
next
  case (3 a as c cs)
  show ?case
  proof (cases "as = []")
    case True
    with 3 have "eq_i 62 c" by simp
    then have "c = 62" by (auto simp: eq_i_def lower_def split: if_splits)
    then show ?thesis by simp
  next
    case False
    with 3 show ?thesis by simp
  qed
qed

lemma lazy_any_then_lit:
  "rmatch (Rep (\<lambda>c. True) 0 None False # lit_i L) b x \<noteq> None \<Longrightarrow> L \<noteq> [] \<Longrightarrow> last L = CHR ''>''
     \<Longrightarrow> 62 \<in> set x"
proof (induction x arbitrary: b)
  case Nil
  then show ?case using rmatch_lit_i[of L "[]" b "[]"] by (cases L) (auto simp: dec_def)
next
  case (Cons c cs)
  show ?case
  proof (cases "rmatch (lit_i L) b (c # cs)")
    case None
    with Cons.prems have "rmatch (Rep (\<lambda>c. True) 0 None False # lit_i L) False cs \<noteq> None"
      by (simp add: dec_def)
    with Cons show ?thesis by simp
  next
    case (Some z)
    then have "starts_i L (c # cs)" using rmatch_lit_i[of L "[]" b "c # cs"] by (simp split: if_splits)
    then show ?thesis using starts_i_gt Cons.prems by blast
  qed
qed

lemma block_match_tag:
  assumes "rmatch (lit_i (CHR ''<'' # a # L1) @ [Rep (\<lambda>c. True) 0 None False] @ lit_i L2) b s \<noteq> None"
    and "L2 \<noteq> []" "last L2 = CHR ''>''" "\<not> eq_i (of_char a) 62"
  shows "tag_at s"
proof -
  let ?A = "CHR ''<'' # a # L1"
  have st: "starts_i ?A s"
    and r: "rmatch ([Rep (\<lambda>c. True) 0 None False] @ lit_i L2) False (drop (length ?A) s) \<noteq> None"
    using assms(1) rmatch_lit_i[of ?A "[Rep (\<lambda>c. True) 0 None False] @ lit_i L2" b s]
    by (auto split: if_splits)
  from r have g: "62 \<in> set (drop (length ?A) s)"
    using lazy_any_then_lit[of L2 False "drop (length ?A) s"] assms(2,3) by simp
  from st obtain c1 c2 r' where s: "s = c1 # c2 # r'" and e: "eq_i 60 c1" "eq_i (of_char a) c2"
    by (cases s; cases "tl s") auto
  have "c1 = 60" using e(1) by (auto simp: eq_i_def lower_def split: if_splits)
  moreover have "c2 \<noteq> 62" using e(2) assms(4) by auto
  moreover have "62 \<in> set r'" using g s by (auto dest: in_set_dropD)
  ultimately show ?thesis using s by (simp add: tag_at_def)
qed

lemma script_match_tag: "rmatch re_script b s \<noteq> None \<Longrightarrow> tag_at s"
  using block_match_tag[of "CHR ''s''" "''cript''" "''</script>''" b s]
  by (simp add: re_script_def eq_i_def lower_def)

lemma style_match_tag: "rmatch re_style b s \<noteq> None \<Longrightarrow> tag_at s"
  using block_match_tag[of "CHR ''s''" "''tyle''" "''</style>''" b s]
  by (simp add: re_style_def eq_i_def lower_def)

lemma ent_match_iff: "rmatch re_nbsp_entity b s \<noteq> None \<longleftrightarrow> ent_at s"
  using rmatch_lit_i[of "''&nbsp;''" "[]" b s]
  by (cases s) (auto simp: re_nbsp_entity_def ent_at_def)

lemma proper_passes:
  "proper re_tag" "proper re_nbsp_entity" "proper [ws_plus]" "proper [one (\<lambda>c. c = 160)]"
proof -
  show "proper re_tag" unfolding re_tag_def one_def One_nat_def by (rule proper_Rep) simp
  have "re_nbsp_entity = Rep (eq_i 38) 1 (Some 1) True # lit_i ''nbsp;''"
    by (simp add: re_nbsp_entity_def lit_i_def one_def)
  moreover have "proper (Rep (eq_i 38) 1 (Some 1) True # lit_i ''nbsp;'')"
    unfolding One_nat_def by (rule proper_Rep) (auto simp: eq_i_def lower_def split: if_splits)
  ultimately show "proper re_nbsp_entity" by simp
  show "proper [ws_plus]" unfolding ws_plus_def One_nat_def
    by (rule proper_Rep) (auto simp: is_ws_def)
  show "proper [one (\<lambda>c. c = 160)]" unfolding one_def One_nat_def
    by (rule proper_Rep) simp
qed

lemma rmatch_ws_plus:
  "rmatch [ws_plus] b s =
     (case s of [] \<Rightarrow> None | c # cs \<Rightarrow> if is_ws c then Some (dropWhile is_ws cs, []) else None)"
proof (cases s)
  case Nil
  then show ?thesis by (simp add: ws_plus_def)
next
  case (Cons c cs)
  have "rmatch [Rep is_ws 1 None True] b (c # cs) =
      (if is_ws c then rmatch [Rep is_ws 0 None True] False cs else None)"
    by (simp add: dec_def)
  then show ?thesis unfolding Cons ws_plus_def rmatch_star_end by simp
qed

lemma collapse_Nil: "replace_all [ws_plus] [32] b [] = []"
  by (simp add: replace_all_Nil proper_passes)

lemma collapse_Cons:
  "replace_all [ws_plus] [32] b (c # cs) =
     (if is_ws c then 32 # replace_all [ws_plus] [32] False (dropWhile is_ws cs)
      else c # replace_all [ws_plus] [32] False cs)"
proof (cases "is_ws c")
  case True
  then have "rmatch [ws_plus] b (c # cs) = Some (dropWhile is_ws cs, [])"
    by (simp add: rmatch_ws_plus)
  from replace_all_match(1)[OF proper_passes(3) this, of "[32]"] True show ?thesis by simp
next
  case False
  then have "rmatch [ws_plus] b (c # cs) = None" by (simp add: rmatch_ws_plus)
  from replace_all_nomatch[OF this] False show ?thesis by simp
qed

lemma collapse_head:
  "s = [] \<or> \<not> is_ws (hd s) \<Longrightarrow>
     replace_all [ws_plus] [32] b s = [] \<or> \<not> is_ws (hd (replace_all [ws_plus] [32] b s))"
  by (cases s) (auto simp: collapse_Nil collapse_Cons)

lemma ws_normal_collapse: "ws_normal (replace_all [ws_plus] [32] b s)"
proof (induction s arbitrary: b rule: length_induct)
  case (1 s)
  show ?case
  proof (cases s)
    case Nil
    then show ?thesis by (simp add: collapse_Nil)
  next
    case (Cons c cs)
    show ?thesis
    proof (cases "is_ws c")
      case True
      let ?d = "dropWhile is_ws cs"
      have "length ?d < length s" using Cons by (simp add: length_dropWhile_le le_imp_less_Suc)
      then have n: "ws_normal (replace_all [ws_plus] [32] False ?d)" using 1 by blast
      have "?d = [] \<or> \<not> is_ws (hd ?d)" using hd_dropWhile[of is_ws cs] by blast
      from collapse_head[OF this, of False] n True Cons show ?thesis
        by (simp add: collapse_Cons)
    next
      case False
      have "ws_normal (replace_all [ws_plus] [32] False cs)" using 1 Cons by simp
      with False Cons show ?thesis by (simp add: collapse_Cons)
    qed
  qed
qed

lemma collapse_id: "ws_normal s \<Longrightarrow> replace_all [ws_plus] [32] b s = s"
proof (induction s arbitrary: b)
  case Nil
  then show ?case by (simp add: collapse_Nil)
next
  case (Cons c cs)
  show ?case
  proof (cases "is_ws c")
    case True
    with Cons.prems have c: "c = 32" and h: "cs = [] \<or> \<not> is_ws (hd cs)" by auto
    from h have "dropWhile is_ws cs = cs" by (cases cs) auto
    with True c Cons show ?thesis by (simp add: collapse_Cons)
  next
    case False
    with Cons show ?thesis by (simp add: collapse_Cons)
  qed
qed

lemma ws_normal_no_nbsp: "ws_normal s \<Longrightarrow> nowhere (\<lambda>x. x \<noteq> [] \<and> hd x = 160) s"
  by (induction s) (auto simp: is_ws_def)

lemma nbsp_id: "ws_normal s \<Longrightarrow> replace_all [one (\<lambda>c. c = 160)] [32] b s = s"
proof (rule replace_all_id[where P = "\<lambda>x. x \<noteq> [] \<and> hd x = 160"])
  fix b' x assume "rmatch [one (\<lambda>c. c = 160)] b' x \<noteq> None"
  then show "x \<noteq> [] \<and> hd x = 160" by (cases x) (simp_all add: rmatch_one split: if_splits)
next
  show "\<not> ([] \<noteq> [] \<and> hd [] = (160::nat))" by simp
next
  assume "ws_normal s"
  then show "nowhere (\<lambda>x. x \<noteq> [] \<and> hd x = 160) s" by (rule ws_normal_no_nbsp)
qed

lemma ws_normal_append: "ws_normal (xs @ ys) \<Longrightarrow> ws_normal xs \<and> ws_normal ys"
proof (induction xs)
  case Nil
  then show ?case by simp
next
  case (Cons c xs)
  then show ?case by (cases xs) auto
qed

lemma trim_decomp: "\<exists>a b. s = a @ trim s @ b"
proof -
  let ?d = "dropWhile is_ws s"
  have "rev ?d = takeWhile is_ws (rev ?d) @ dropWhile is_ws (rev ?d)" by simp
  then have "?d = rev (dropWhile is_ws (rev ?d)) @ rev (takeWhile is_ws (rev ?d))"
    by (metis rev_append rev_rev_ident)
  then have "?d = trim s @ rev (takeWhile is_ws (rev ?d))" by (simp add: trim_def)
  moreover have "s = takeWhile is_ws s @ ?d" by simp
  ultimately show ?thesis by metis
qed

lemma normalizeText_Str:
  "normalizeText (Str x) =
     trim (replace_all [ws_plus] [32] True (replace_all [one (\<lambda>c. c = 160)] [32] True x))"
  by (simp add: normalizeText_def u_def)

lemma normalizeText_eq: "normalizeText v = normalizeText (Str (String_of v))"
  by (simp add: normalizeText_def)

lemma normalizeText_normal:
  "ws_normal (normalizeText v)" "trim (normalizeText v) = normalizeText v"
proof -
  let ?c = "replace_all [ws_plus] [32] True (replace_all [one (\<lambda>c. c = 160)] [32] True (String_of v))"
  have n: "normalizeText v = trim ?c" by (simp add: normalizeText_def u_def)
  obtain a b where "?c = a @ trim ?c @ b" using trim_decomp by blast
  then have "ws_normal (a @ trim ?c @ b)" using ws_normal_collapse[of True] by metis
  then show "ws_normal (normalizeText v)" using n ws_normal_append by metis
  show "trim (normalizeText v) = normalizeText v" by (simp add: n trim_idem)
qed

lemma normalized_fixed: "ws_normal t \<Longrightarrow> trim t = t \<Longrightarrow> normalizeText (Str t) = t"
  by (simp add: normalizeText_Str nbsp_id collapse_id)

lemma normalizeText_idem: "normalizeText (Str (normalizeText v)) = normalizeText v"
  by (rule normalized_fixed) (rule normalizeText_normal)+

lemma nowhere_trim:
  assumes "\<And>x y. P x \<Longrightarrow> P (x @ y)" and "nowhere P s"
  shows "nowhere P (trim s)"
proof -
  obtain a b where s: "s = a @ trim s @ b" using trim_decomp by blast
  then have "nowhere P (a @ trim s @ b)" using assms(2) by simp
  then have "nowhere P (trim s @ b)" by (rule nowhere_suffix)
  then show ?thesis by (rule nowhere_prefix[rotated]) (rule assms(1))
qed

lemma tagfree_pass:
  assumes "proper re" and "nowhere tag_at s \<or> (\<forall>b x. rmatch re b x = None \<longrightarrow> \<not> tag_at x)"
  shows "nowhere tag_at (replace_all re [32] b s)"
proof (rule nowhere_replace_all[where P = tag_at])
  show "proper re" by (rule assms(1))
  show "\<And>c cs b. \<not> tag_at (c # cs) \<Longrightarrow> \<not> tag_at (c # replace_all re [32] b cs)"
    by (rule tag_keep[OF assms(1)])
  show "\<And>x. \<not> tag_at (32 # x)" by (rule not_tag_at_space)
  show "nowhere tag_at s \<or> (\<forall>b x. rmatch re b x = None \<longrightarrow> \<not> tag_at x)" by (rule assms(2))
qed

lemma entfree_pass:
  assumes "proper re" and "nowhere ent_at s \<or> (\<forall>b x. rmatch re b x = None \<longrightarrow> \<not> ent_at x)"
  shows "nowhere ent_at (replace_all re [32] b s)"
proof (rule nowhere_replace_all[where P = ent_at])
  show "proper re" by (rule assms(1))
  show "\<And>c cs b. \<not> ent_at (c # cs) \<Longrightarrow> \<not> ent_at (c # replace_all re [32] b cs)"
    by (rule ent_keep[OF assms(1)])
  show "\<And>x. \<not> ent_at (32 # x)" by (rule not_ent_at_space)
  show "nowhere ent_at s \<or> (\<forall>b x. rmatch re b x = None \<longrightarrow> \<not> ent_at x)" by (rule assms(2))
qed

lemma normalizeText_tagfree: "nowhere tag_at x \<Longrightarrow> nowhere tag_at (normalizeText (Str x))"
proof -
  assume x: "nowhere tag_at x"
  have a: "nowhere tag_at (replace_all [one (\<lambda>c. c = 160)] [32] True x)"
    using tagfree_pass[OF proper_passes(4)] x by blast
  have b: "nowhere tag_at (replace_all [ws_plus] [32] True (replace_all [one (\<lambda>c. c = 160)] [32] True x))"
    using tagfree_pass[OF proper_passes(3)] a by blast
  show ?thesis unfolding normalizeText_Str
    by (rule nowhere_trim[OF _ b]) (rule tag_at_append)
qed

lemma normalizeText_entfree: "nowhere ent_at x \<Longrightarrow> nowhere ent_at (normalizeText (Str x))"
proof -
  assume x: "nowhere ent_at x"
  have a: "nowhere ent_at (replace_all [one (\<lambda>c. c = 160)] [32] True x)"
    using entfree_pass[OF proper_passes(4)] x by blast
  have b: "nowhere ent_at (replace_all [ws_plus] [32] True (replace_all [one (\<lambda>c. c = 160)] [32] True x))"
    using entfree_pass[OF proper_passes(3)] a by blast
  show ?thesis unfolding normalizeText_Str
    by (rule nowhere_trim[OF _ b]) (rule ent_at_append)
qed

lemma strip_html_free: "nowhere tag_at (strip_html x)" "nowhere ent_at (strip_html x)"
proof -
  let ?y = "replace_all re_style [32] True (replace_all re_script [32] True x)"
  have "\<forall>b x. rmatch re_tag b x = None \<longrightarrow> \<not> tag_at x" using tag_match_iff by blast
  then have t: "nowhere tag_at (replace_all re_tag [32] True ?y)"
    using tagfree_pass[OF proper_passes(1)] by blast
  have "nowhere tag_at (replace_all re_nbsp_entity [32] True (replace_all re_tag [32] True ?y))"
    using tagfree_pass[OF proper_passes(2)] t by blast
  then show "nowhere tag_at (strip_html x)" by (simp add: strip_html_def u_def)
  have "\<forall>b x. rmatch re_nbsp_entity b x = None \<longrightarrow> \<not> ent_at x" using ent_match_iff by blast
  then have "nowhere ent_at (replace_all re_nbsp_entity [32] True (replace_all re_tag [32] True ?y))"
    using entfree_pass[OF proper_passes(2)] by blast
  then show "nowhere ent_at (strip_html x)" by (simp add: strip_html_def u_def)
qed

lemma strip_html_id:
  assumes "nowhere tag_at t" and "nowhere ent_at t"
  shows "strip_html t = t"
proof -
  have a: "replace_all re_script [32] True t = t"
    by (rule replace_all_id[where P = tag_at]) (use assms script_match_tag in \<open>auto simp: tag_at_def\<close>)
  have b: "replace_all re_style [32] True t = t"
    by (rule replace_all_id[where P = tag_at]) (use assms style_match_tag in \<open>auto simp: tag_at_def\<close>)
  have c: "replace_all re_tag [32] True t = t"
    by (rule replace_all_id[where P = tag_at]) (use assms tag_match_iff in \<open>auto simp: tag_at_def\<close>)
  have d: "replace_all re_nbsp_entity [32] True t = t"
    by (rule replace_all_id[where P = ent_at]) (use assms ent_match_iff in \<open>auto simp: ent_at_def\<close>)
  show ?thesis by (simp add: strip_html_def u_def a b c d)
qed

lemma html_text_idem: "html_text (Str (html_text h)) = html_text h"
proof (cases "falsy h \<or> html_text h = []")
  case True
  then show ?thesis by (auto simp: html_text_def)
next
  case False
  let ?t = "html_text h"
  have t: "?t = normalizeText (Str (strip_html (String_of h)))" using False by (simp add: html_text_def)
  have "nowhere tag_at ?t" "nowhere ent_at ?t"
    unfolding t by (simp_all add: normalizeText_tagfree normalizeText_entfree strip_html_free)
  then have s: "strip_html ?t = ?t" by (rule strip_html_id)
  have n: "normalizeText (Str ?t) = ?t" unfolding t by (rule normalizeText_idem)
  have "?t \<noteq> []" using False by simp
  then have "html_text (Str ?t) = normalizeText (Str (strip_html ?t))"
    by (subst html_text_def) simp
  also have "\<dots> = ?t" unfolding s by (rule n)
  finally show ?thesis .
qed

text \<open>
  Claim C8. Normalizing is idempotent: the text that \<open>htmlToText\<close> makes of a body is
  left as it is when it is taken as a body again, and \<open>normalizeText\<close> leaves its own
  result as it is. For a body that is \<open>null\<close>, \<open>undefined\<close> or the empty string,
  \<open>htmlToText\<close> returns the empty string and does not raise.
\<close>

theorem normalizer_idempotent:
  "html_text (Str (html_text h)) = html_text h
   \<and> normalizeText (Str (normalizeText v)) = normalizeText v
   \<and> html_text Null = [] \<and> html_text Undefined = [] \<and> html_text (Str []) = []
   \<and> htmlToText Null = Inr (Text []) \<and> htmlToText Undefined = Inr (Text [])
   \<and> htmlToText (Str []) = Inr (Text [])"
proof -
  have a: "html_text (Str (html_text h)) = html_text h" by (rule html_text_idem)
  have b: "normalizeText (Str (normalizeText v)) = normalizeText v" by (rule normalizeText_idem)
  have c: "html_text Null = []" "html_text Undefined = []" "html_text (Str []) = []"
    by (simp_all add: html_text_def)
  have d: "htmlToText Null = Inr (Text [])" "htmlToText Undefined = Inr (Text [])"
    "htmlToText (Str []) = Inr (Text [])"
    by (simp_all add: htmlToText_def)
  from a b c d show ?thesis by blast
qed

section \<open>Fields whose anchor is missing\<close>

lemma rmatch_marks_suffix:
  "rmatch re b s = Some (rest, m) \<Longrightarrow> x \<in> set m \<Longrightarrow> \<exists>pre. s = pre @ x"
proof (induction re b s arbitrary: rest m rule: rmatch.induct)
  case (1 bol s)
  then show ?case by simp
next
  case (2 p lo hi g r bol s)
  show ?case
  proof (cases s)
    case Nil
    with 2 show ?thesis by (auto split: if_splits option.splits)
  next
    case (Cons c cs)
    with 2 show ?thesis
      by (auto split: if_splits option.splits) (metis append_Cons)+
  qed
next
  case (3 r bol s)
  then show ?case by (auto split: option.splits)
next
  case (4 r bol s)
  then show ?case by (auto split: option.splits)
next
  case (5 alts r bol s)
  then show ?case by (auto split: if_splits)
next
  case (6 r bol s)
  then show ?case by (auto split: if_splits)
next
  case (7 r bol s)
  then show ?case by (auto split: if_splits)
qed

lemma rsearch_marks_suffix:
  "rsearch re b s = Some (rest, m) \<Longrightarrow> x \<in> set m \<Longrightarrow> \<exists>pre. s = pre @ x"
proof (induction re b s rule: rsearch.induct)
  case (1 re bol)
  then show ?case using rmatch_marks_suffix by fastforce
next
  case (2 re bol c cs)
  show ?case
  proof (cases "rmatch re bol (c # cs)")
    case None
    with 2 obtain pre where "cs = pre @ x" by auto
    then have "c # cs = (c # pre) @ x" by simp
    then show ?thesis by blast
  next
    case (Some z)
    with 2 have "rmatch re bol (c # cs) = Some (rest, m)" by simp
    from rmatch_marks_suffix[OF this "2.prems"(2)] show ?thesis .
  qed
qed

lemma interviewSection_within:
  assumes "interviewSection s = Some sec"
  shows "\<exists>pre post. s = pre @ sec @ post"
proof -
  from assms obtain rest m where r: "rsearch re_interview True s = Some (rest, m)"
    and g: "group1 m = Some sec"
    by (auto simp: interviewSection_def split: option.splits)
  from g obtain a b where m: "m = [a, b]" and s: "sec = take (length a - length b) a"
    by (auto simp: group1_def split: list.splits)
  from rsearch_marks_suffix[OF r, of a] m obtain pre where "s = pre @ a" by auto
  moreover have "a = sec @ drop (length a - length b) a" using s by simp
  ultimately show ?thesis by metis
qed

lemma nowhere_section:
  assumes "nowhere (starts_i A) s"
  shows "nowhere (starts_i A) (or_str (interviewSection s) [])"
proof (cases "interviewSection s")
  case None
  then show ?thesis by (simp add: or_str_def)
next
  case (Some sec)
  from interviewSection_within[OF this] obtain pre post where t: "s = pre @ sec @ post" by blast
  with assms have "nowhere (starts_i A) (sec @ post)" using nowhere_suffix by blast
  then have "nowhere (starts_i A) sec"
    by (rule nowhere_prefix[rotated]) (rule starts_i_append)
  then show ?thesis using Some by (simp add: or_str_def)
qed

lemma rsearch_no_anchor:
  "nowhere (starts_i A) s \<Longrightarrow> A \<noteq> [] \<Longrightarrow> rsearch (lit_i A @ r) b s = None"
proof (induction s arbitrary: b)
  case Nil
  then show ?case using rmatch_lit_i[of A r b "[]"] by (cases A) auto
next
  case (Cons c cs)
  then have "rmatch (lit_i A @ r) b (c # cs) = None" using rmatch_lit_i[of A r b "c # cs"] by simp
  with Cons show ?case by simp
qed

lemma find_no_anchor:
  "nowhere (starts_i A) s \<Longrightarrow> A \<noteq> [] \<Longrightarrow> find_re (lit_i A @ r) s = Inr None"
  by (simp add: find_re_def rsearch_no_anchor)

lemma section_no_anchor:
  "nowhere (starts_i ''Interview Support'') s \<Longrightarrow> or_str (interviewSection s) [] = []"
  using rsearch_no_anchor[of "''Interview Support''" s _ True]
  by (simp add: interviewSection_def re_interview_def or_str_def)

lemma find_in_empty_section:
  "find_re re_interview_support_by [] = Inr None"
  "find_re re_team_lead [] = Inr None"
  "find_re re_manager [] = Inr None"
  by (simp_all add: find_re_def group1_def trim_def field_defs re_defs)

text \<open>
  Claim C1. For every input, \<open>null\<close> and the empty string among them, the extractor
  returns the structure of eleven fields and does not raise; every field is absent or a
  trimmed string; and a missing anchor gives an absent field: each of the eight fields read
  from the whole text is absent when its label occurs nowhere in the normalized text
  (letter case ignored), the three fields of the interview section are absent when
  \<open>Interview Support\<close> occurs nowhere in it, and the team lead and the manager are absent
  when \<open>Team Lead\<close> and \<open>Manager\<close> occur nowhere in it. \<open>htmlToText\<close>, which calls the
  extractor, does not raise either.
\<close>

theorem extractPoDetails_total:
  "(\<exists>e. extractPoDetails inp = Inr e
     \<and> trimmed_or_absent (candidate_name e) \<and> trimmed_or_absent (phone_number e)
     \<and> trimmed_or_absent (email e) \<and> trimmed_or_absent (location e)
     \<and> trimmed_or_absent (position_applied e) \<and> trimmed_or_absent (job_location e)
     \<and> trimmed_or_absent (end_client e) \<and> trimmed_or_absent (rate e)
     \<and> trimmed_or_absent (interview_support_by e) \<and> trimmed_or_absent (team_lead e)
     \<and> trimmed_or_absent (manager e)
     \<and> (nowhere (starts_i ''Name of Candidate:'') (normalizeText inp) \<longrightarrow> candidate_name e = None)
     \<and> (nowhere (starts_i ''Personal Phone Number'') (normalizeText inp) \<longrightarrow> phone_number e = None)
     \<and> (nowhere (starts_i ''Email ID'') (normalizeText inp) \<longrightarrow> email e = None)
     \<and> (nowhere (starts_i ''Location'') (normalizeText inp) \<longrightarrow> location e = None)
     \<and> (nowhere (starts_i ''Position that Applied:'') (normalizeText inp) \<longrightarrow> position_applied e = None)
     \<and> (nowhere (starts_i ''Job Location:'') (normalizeText inp) \<longrightarrow> job_location e = None)
     \<and> (nowhere (starts_i ''Implementation/End Client'') (normalizeText inp) \<longrightarrow> end_client e = None)
     \<and> (nowhere (starts_i ''Rate:'') (normalizeText inp) \<longrightarrow> rate e = None)
     \<and> (nowhere (starts_i ''Interview Support'') (normalizeText inp) \<longrightarrow>
            interview_support_by e = None \<and> team_lead e = None \<and> manager e = None)
     \<and> (nowhere (starts_i ''Team Lead'') (normalizeText inp) \<longrightarrow> team_lead e = None)
     \<and> (nowhere (starts_i ''Manager'') (normalizeText inp) \<longrightarrow> manager e = None))
   \<and> (\<exists>r. htmlToText h = Inr r)"
proof -
  let ?t = "normalizeText inp" and ?s = "or_str (interviewSection (normalizeText inp)) []"
  obtain e where e: "extractPoDetails inp = Inr e"
    and f: "find_re re_candidate_name ?t = Inr (candidate_name e)"
      "find_re re_phone_number ?t = Inr (phone_number e)"
      "find_re re_email ?t = Inr (email e)"
      "find_re re_location ?t = Inr (location e)"
      "find_re re_position_applied ?t = Inr (position_applied e)"
      "find_re re_job_location ?t = Inr (job_location e)"
      "find_re re_end_client ?t = Inr (end_client e)"
      "find_re re_rate ?t = Inr (rate e)"
      "find_re re_interview_support_by ?s = Inr (interview_support_by e)"
      "find_re re_team_lead ?s = Inr (team_lead e)"
      "find_re re_manager ?s = Inr (manager e)"
    using extractPoDetails_fields[of inp] by blast
  have t: "\<And>re s v. ngroups re = 2 \<Longrightarrow> find_re re s = Inr v \<Longrightarrow> trimmed_or_absent v"
  proof -
    fix re s v assume "ngroups re = 2" and v: "find_re re s = Inr v"
    from find_re_total[OF this(1), of s] obtain w where "find_re re s = Inr w" "trimmed_or_absent w"
      by blast
    with v show "trimmed_or_absent v" by simp
  qed
  have a1: "nowhere (starts_i ''Name of Candidate:'') ?t \<longrightarrow> candidate_name e = None"
    using f(1) find_no_anchor[of "''Name of Candidate:''" ?t] by (auto simp: re_candidate_name_def)
  have a2: "nowhere (starts_i ''Personal Phone Number'') ?t \<longrightarrow> phone_number e = None"
    using f(2) find_no_anchor[of "''Personal Phone Number''" ?t] by (auto simp: re_phone_number_def)
  have a3: "nowhere (starts_i ''Email ID'') ?t \<longrightarrow> email e = None"
    using f(3) find_no_anchor[of "''Email ID''" ?t] by (auto simp: re_email_def)
  have a4: "nowhere (starts_i ''Location'') ?t \<longrightarrow> location e = None"
    using f(4) find_no_anchor[of "''Location''" ?t] by (auto simp: re_location_def)
  have a5: "nowhere (starts_i ''Position that Applied:'') ?t \<longrightarrow> position_applied e = None"
    using f(5) find_no_anchor[of "''Position that Applied:''" ?t] by (auto simp: re_position_applied_def)
  have a6: "nowhere (starts_i ''Job Location:'') ?t \<longrightarrow> job_location e = None"
    using f(6) find_no_anchor[of "''Job Location:''" ?t] by (auto simp: re_job_location_def)
  have a7: "nowhere (starts_i ''Implementation/End Client'') ?t \<longrightarrow> end_client e = None"
    using f(7) find_no_anchor[of "''Implementation/End Client''" ?t] by (auto simp: re_end_client_def)
  have a8: "nowhere (starts_i ''Rate:'') ?t \<longrightarrow> rate e = None"
    using f(8) find_no_anchor[of "''Rate:''" ?t] by (auto simp: re_rate_def)
  have a9: "nowhere (starts_i ''Interview Support'') ?t \<longrightarrow>
      interview_support_by e = None \<and> team_lead e = None \<and> manager e = None"
    using f(9,10,11) section_no_anchor[of ?t] find_in_empty_section by auto
  have a10: "nowhere (starts_i ''Team Lead'') ?t \<longrightarrow> team_lead e = None"
    using f(10) nowhere_section[of "''Team Lead''" ?t] find_no_anchor[of "''Team Lead''" ?s]
    by (auto simp: re_team_lead_def)
  have a11: "nowhere (starts_i ''Manager'') ?t \<longrightarrow> manager e = None"
    using f(11) nowhere_section[of "''Manager''" ?t] find_no_anchor[of "''Manager''" ?s]
    by (auto simp: re_manager_def)
  have tr: "trimmed_or_absent (candidate_name e)" "trimmed_or_absent (phone_number e)"
    "trimmed_or_absent (email e)" "trimmed_or_absent (location e)"
    "trimmed_or_absent (position_applied e)" "trimmed_or_absent (job_location e)"
    "trimmed_or_absent (end_client e)" "trimmed_or_absent (rate e)"
    "trimmed_or_absent (interview_support_by e)" "trimmed_or_absent (team_lead e)"
    "trimmed_or_absent (manager e)"
    using t[OF ngroups_fields(1) f(1)] t[OF ngroups_fields(2) f(2)] t[OF ngroups_fields(3) f(3)]
      t[OF ngroups_fields(4) f(4)] t[OF ngroups_fields(5) f(5)] t[OF ngroups_fields(6) f(6)]
      t[OF ngroups_fields(7) f(7)] t[OF ngroups_fields(8) f(8)] t[OF ngroups_fields(9) f(9)]
      t[OF ngroups_fields(10) f(10)] t[OF ngroups_fields(11) f(11)]
    by blast+
  from e tr a1 a2 a3 a4 a5 a6 a7 a8 a9 a10 a11 htmlToText_total[of h] show ?thesis by blast
qed

text \<open>The theorem at \<open>null\<close>, whose text \<open>"null"\<close> holds no anchor: every field is absent.\<close>

theorem extractPoDetails_total_witness:
  "normalizeText Null = u ''null''
   \<and> nowhere (starts_i ''Name of Candidate:'') (normalizeText Null)
   \<and> nowhere (starts_i ''Personal Phone Number'') (normalizeText Null)
   \<and> nowhere (starts_i ''Email ID'') (normalizeText Null)
   \<and> nowhere (starts_i ''Location'') (normalizeText Null)
   \<and> nowhere (starts_i ''Position that Applied:'') (normalizeText Null)
   \<and> nowhere (starts_i ''Job Location:'') (normalizeText Null)
   \<and> nowhere (starts_i ''Implementation/End Client'') (normalizeText Null)
   \<and> nowhere (starts_i ''Rate:'') (normalizeText Null)
   \<and> nowhere (starts_i ''Interview Support'') (normalizeText Null)
   \<and> nowhere (starts_i ''Team Lead'') (normalizeText Null)
   \<and> nowhere (starts_i ''Manager'') (normalizeText Null)
   \<and> extractPoDetails Null =
        Inr \<lparr> candidate_name = None, phone_number = None, email = None, location = None,
              position_applied = None, job_location = None, end_client = None, rate = None,
              interview_support_by = None, team_lead = None, manager = None \<rparr>"
proof -
  have n: "normalizeText Null = u ''null''"
    by (simp add: normalizeText_def replace_all.simps trim_def re_defs)
  have h: "nowhere (starts_i ''Name of Candidate:'') (normalizeText Null)"
    "nowhere (starts_i ''Personal Phone Number'') (normalizeText Null)"
    "nowhere (starts_i ''Email ID'') (normalizeText Null)"
    "nowhere (starts_i ''Location'') (normalizeText Null)"
    "nowhere (starts_i ''Position that Applied:'') (normalizeText Null)"
    "nowhere (starts_i ''Job Location:'') (normalizeText Null)"
    "nowhere (starts_i ''Implementation/End Client'') (normalizeText Null)"
    "nowhere (starts_i ''Rate:'') (normalizeText Null)"
    "nowhere (starts_i ''Interview Support'') (normalizeText Null)"
    "nowhere (starts_i ''Team Lead'') (normalizeText Null)"
    "nowhere (starts_i ''Manager'') (normalizeText Null)"
    unfolding n by (simp_all add: u_def eq_i_def lower_def)
  from extractPoDetails_total[of Null] h obtain e where e: "extractPoDetails Null = Inr e"
    and f: "candidate_name e = None" "phone_number e = None" "email e = None" "location e = None"
      "position_applied e = None" "job_location e = None" "end_client e = None" "rate e = None"
      "interview_support_by e = None" "team_lead e = None" "manager e = None"
    by blast
  have "e = \<lparr> candidate_name = None, phone_number = None, email = None, location = None,
              position_applied = None, job_location = None, end_client = None, rate = None,
              interview_support_by = None, team_lead = None, manager = None \<rparr>"
    using f by (cases e) simp
  with e n h show ?thesis by simp
qed

end
